theory Spec2Isabelle
  imports Complex_Main "HOL-Library.Word" "HOL-Library.Sublist"
begin

section \<open>JavaScript strings\<close>

text \<open>
  A JavaScript string is a sequence of 16-bit code units; \<open>length\<close>, \<open>includes\<close>,
  \<open>trim\<close> and the regular expressions of the normaliser all work on code units.
  ASCII literals of the source are written through \<open>js\<close>; Arabic literals are
  written as their code units.
\<close>

type_synonym jschar = "16 word"
type_synonym jsstring = "jschar list"

definition js :: "string \<Rightarrow> jsstring" where
  "js s = map of_char s"

text \<open>
  \<open>String.prototype.trim\<close> removes the ECMAScript WhiteSpace and LineTerminator
  code points from both ends.
\<close>

definition isWhiteSpace :: "jschar \<Rightarrow> bool" where
  "isWhiteSpace c =
     (c = 0x9 \<or> c = 0xA \<or> c = 0xB \<or> c = 0xC \<or> c = 0xD \<or> c = 0x20 \<or> c = 0xA0
      \<or> c = 0x1680 \<or> (0x2000 \<le> c \<and> c \<le> 0x200A) \<or> c = 0x2028 \<or> c = 0x2029
      \<or> c = 0x202F \<or> c = 0x205F \<or> c = 0x3000 \<or> c = 0xFEFF)"

definition trim :: "jsstring \<Rightarrow> jsstring" where
  "trim s = rev (dropWhile isWhiteSpace (rev (dropWhile isWhiteSpace s)))"

text \<open>
  \<open>String.prototype.toLowerCase\<close> is a built-in of the platform, not code of the
  repository, and the model below is an approximation of it: it maps the capital letters
  of Basic Latin and of the Latin-1 Supplement to their small letters, code unit by code
  unit, and leaves every other code unit as it is. This agrees with ECMAScript on those
  two blocks and on the Arabic block, which has no cased letters. It does not agree
  elsewhere: the built-in also lowers the capital letters of Latin Extended, Greek,
  Cyrillic and other scripts, and for a few code points the result is longer than the
  argument. No general theorem below unfolds this definition; it is used only where a
  statement is evaluated at a concrete string, and every such string lies in the blocks
  on which the model agrees with the built-in.
\<close>

definition toLowerCase_unit :: "jschar \<Rightarrow> jschar" where
  "toLowerCase_unit c =
     (if 0x41 \<le> c \<and> c \<le> 0x5A then c + 0x20
      else if 0xC0 \<le> c \<and> c \<le> 0xDE \<and> c \<noteq> 0xD7 then c + 0x20
      else c)"

definition toLowerCase :: "jsstring \<Rightarrow> jsstring" where
  "toLowerCase s = map toLowerCase_unit s"

text \<open>\<open>hay.includes(needle)\<close>: the needle occurs as a contiguous run of the hay.\<close>

definition includes_js :: "jsstring \<Rightarrow> jsstring \<Rightarrow> bool" where
  "includes_js hay needle = sublist needle hay"

text \<open>
  \<open>s.replace(/[...]/g, r)\<close> for a character class: every code unit of the class is
  replaced by \<open>r\<close>. \<open>s.replace(/^(p)/, r)\<close>: a leading \<open>p\<close> is replaced once.
\<close>

definition replace_class :: "(jschar \<Rightarrow> bool) \<Rightarrow> jsstring \<Rightarrow> jsstring \<Rightarrow> jsstring" where
  "replace_class cls r s = concat (map (\<lambda>c. if cls c then r else [c]) s)"

definition replace_leading :: "jsstring \<Rightarrow> jsstring \<Rightarrow> jsstring \<Rightarrow> jsstring" where
  "replace_leading p r s = (if prefix p s then r @ drop (length p) s else s)"

text \<open>\<open>xs.slice(-n)\<close> keeps the last \<open>n\<close> entries; \<open>xs.join(sep)\<close>.\<close>

definition slice_last :: "nat \<Rightarrow> 'a list \<Rightarrow> 'a list" where
  "slice_last n xs = drop (length xs - n) xs"

fun join :: "jsstring \<Rightarrow> jsstring list \<Rightarrow> jsstring" where
  "join sep [] = []"
| "join sep [x] = x"
| "join sep (x # y # ys) = x @ sep @ join sep (y # ys)"


section \<open>types.ts\<close>

datatype EntityType = TEAM | PLAYER | COACH | TROPHY | NATIONAL_TEAM | YEAR

datatype Difficulty = EASY | MEDIUM | HARD

record GameEntity =
  name :: jsstring
  type :: EntityType
  description :: "jsstring option"
  imageUrl :: "jsstring option"
  color :: "jsstring option"

record Challenge =
  id' :: jsstring
  cardA :: GameEntity
  cardB :: GameEntity
  possibleAnswers :: "jsstring list option"

datatype GameStatus = IDLE | LOADING_CHALLENGE | PLAYING | VALIDATING | GAME_OVER

record HistoryEntry =
  question :: jsstring
  answer :: jsstring
  isCorrect :: bool

record GameState =
  status :: GameStatus
  score :: int
  timeLeft :: int
  currentChallenge :: "Challenge option"
  message :: "jsstring option"
  difficulty :: Difficulty
  history :: "HistoryEntry list"
  seenEntities :: "jsstring list"


section \<open>The service: backend calls with fallback\<close>

definition PRIMARY_MODEL :: jsstring where
  "PRIMARY_MODEL = js ''gemini-2.5-flash''"

definition FALLBACK_MODEL :: jsstring where
  "FALLBACK_MODEL = js ''gemini-flash-lite-latest''"

datatype Schema = challengeSchema | validationSchema

definition THEMES :: "jsstring list" where
  "THEMES =
    [js ''History: Legends of the 90s and 2000s'',
     js ''Modern: Current stars (2020-2025)'',
     js ''Tactical: Coach and Player relationships'',
     js ''International: World Cups, Euros'',
     js ''Transfers: Players who moved between big clubs'',
     js ''Underdogs: Notable players from teams like Dortmund, Atletico'',
     js ''Premier League Focus'',
     js ''Serie A & La Liga giants'',
     js ''Managers: Famous coaches and their key players'',
     js ''Silverware: Winners of UCL, World Cup, Ballon d'Or'',
     js ''National Duty: National team achievements'']"

definition STRUCTURES :: "jsstring list" where
  "STRUCTURES =
    [js ''Entity A: TEAM, Entity B: PLAYER'',
     js ''Entity A: COACH, Entity B: TEAM'',
     js ''Entity A: TROPHY, Entity B: PLAYER'',
     js ''Entity A: NATIONAL_TEAM, Entity B: COACH'',
     js ''Entity A: PLAYER, Entity B: PLAYER'',
     js ''Entity A: TEAM, Entity B: TEAM'',
     js ''Entity A: TROPHY, Entity B: TEAM'',
     js ''Entity A: COACH, Entity B: PLAYER'',
     js ''Entity A: NATIONAL_TEAM, Entity B: TEAM'']"

text \<open>
  A thrown value is read through the two observations the catch block makes of it:
  \<open>error.toString()\<close> and \<open>error.status\<close>.
\<close>

record js_error =
  err_text :: jsstring
  err_status :: "int option"

record request =
  model :: jsstring
  contents :: jsstring
  responseMimeType :: jsstring
  responseSchema :: Schema
  temperature :: real

text \<open>
  The language-model backend and \<open>JSON.parse\<close> are outside the repository; a call
  of the service takes them as a parameter. \<open>generateContent\<close> answers a request
  with the response's \<open>text\<close> (possibly undefined) or throws; \<open>JSON_parse\<close> yields
  the parsed value or throws. The parsed value is of TypeScript type \<open>any\<close>; it is
  taken at the shape its response schema declares (the type parameter).
\<close>

record 'a backend =
  generateContent :: "request \<Rightarrow> js_error + jsstring option"
  JSON_parse :: "jsstring \<Rightarrow> js_error + 'a"

text \<open>What a call of the service does besides returning, in order.\<close>

datatype effect =
    GenerateContent request
  | ConsoleWarn jsstring
  | Delay nat
  | ConsoleError

definition isQuotaError :: "js_error \<Rightarrow> bool" where
  "isQuotaError error = (includes_js (err_text error) (js ''429'') \<or> err_status error = Some 429)"

text \<open>The body of the \<open>try\<close> block: one request and the parse of its answer.\<close>

definition attempt :: "'a backend \<Rightarrow> request \<Rightarrow> js_error + 'a" where
  "attempt ai req =
     (case generateContent ai req of
        Inl error \<Rightarrow> Inl error
      | Inr text \<Rightarrow>
          JSON_parse ai (case text of None \<Rightarrow> js ''{}''
                         | Some t \<Rightarrow> if t = [] then js ''{}'' else t))"

text \<open>
  The \<open>for\<close> loop of \<open>generateWithFallback\<close> over \<open>modelsToTry\<close>, with
  \<open>lastError\<close> (undefined before the first failure) as accumulator. The result is
  the returned value, or the thrown one (\<open>Inl\<close>).
\<close>

definition mk_request :: "jsstring \<Rightarrow> jsstring \<Rightarrow> Schema \<Rightarrow> real \<Rightarrow> request" where
  "mk_request m prompt schema temp =
     \<lparr>model = m, contents = prompt, responseMimeType = js ''application/json'',
      responseSchema = schema, temperature = temp\<rparr>"

fun tryModels ::
  "'a backend \<Rightarrow> jsstring \<Rightarrow> Schema \<Rightarrow> real \<Rightarrow> jsstring list \<Rightarrow> js_error option
     \<Rightarrow> (js_error option + 'a) \<times> effect list" where
  "tryModels ai prompt schema temp [] lastError = (Inl lastError, [])"
| "tryModels ai prompt schema temp (m # rest) lastError =
     (let req = mk_request m prompt schema temp
      in case attempt ai req of
           Inr data \<Rightarrow> (Inr data, [GenerateContent req])
         | Inl error \<Rightarrow>
             if \<not> isQuotaError error then (Inl (Some error), [GenerateContent req])
             else (case tryModels ai prompt schema temp rest (Some error) of
                     (r, effs) \<Rightarrow>
                       (r, [GenerateContent req, ConsoleWarn m, Delay 1000] @ effs)))"

definition generateWithFallback ::
  "'a backend \<Rightarrow> jsstring \<Rightarrow> Schema \<Rightarrow> real \<Rightarrow> (js_error option + 'a) \<times> effect list" where
  "generateWithFallback ai prompt schema temp =
     tryModels ai prompt schema temp [PRIMARY_MODEL, FALLBACK_MODEL] None"


section \<open>The service: challenge generation\<close>

datatype ChallengeData =
  ChallengeData (data_cardA: GameEntity) (data_cardB: GameEntity)
    (data_possibleSolutions: "jsstring list")

definition difficultyContext :: "Difficulty \<Rightarrow> jsstring" where
  "difficultyContext d =
     (case d of
        EASY \<Rightarrow> js ''DIFFICULTY: EASY. Use ONLY extremely famous global superstars.''
      | HARD \<Rightarrow> js ''DIFFICULTY: HARD. Use deeper cuts, mid-table teams, or historical players.''
      | MEDIUM \<Rightarrow> js ''DIFFICULTY: MEDIUM. Use well-known players, coaches, and teams.'')"

definition challengePrompt :: "jsstring \<Rightarrow> jsstring \<Rightarrow> jsstring \<Rightarrow> jsstring \<Rightarrow> jsstring" where
  "challengePrompt randomTheme randomStructure context recentExclusions =
     [0xA] @
     js ''    Generate a challenging but solvable football connection puzzle.'' @
     [0xA] @
     js ''    THEME: '' @
     randomTheme @
     [0xA] @
     js ''    REQUIRED STRUCTURE: '' @
     randomStructure @
     [0xA] @
     js ''    '' @
     context @
     [0xA] @
     js ''    '' @
     [0xA] @
     js ''    Constraints:'' @
     [0xA] @
     js ''    1. Output in ARABIC.'' @
     [0xA] @
     js ''    2. Connection must be factual.'' @
     [0xA] @
     js ''    3. Exclude: ['' @
     recentExclusions @
     js ''].'' @
     [0xA] @
     js ''    4. VARIETY: Use Coaches, Trophies, National Teams.'' @
     [0xA] @
     js ''    5. IMAGES: Must be valid Wikimedia Commons HTTPS URLs (jpg/png) for Logos, Faces, Trophies.'' @
     [0xA] @
     js ''    '' @
     [0xA] @
     js ''    The concept is: Find a Player who connects Card A and Card B.'' @
     [0xA] @
     js ''  ''"

text \<open>
  \<open>Math.floor(Math.random() * xs.length)\<close>, with the value \<open>rnd\<close> of
  \<open>Math.random()\<close> (in \<open>[0, 1)\<close>) as a parameter.
\<close>

definition pick :: "real \<Rightarrow> 'a list \<Rightarrow> 'a" where
  "pick rnd xs = xs ! nat \<lfloor>rnd * real (length xs)\<rfloor>"

text \<open>
  \<open>generateChallenge\<close>; \<open>rnd1\<close>, \<open>rnd2\<close> are the two values of \<open>Math.random()\<close>
  and \<open>uuid\<close> the value of \<open>crypto.randomUUID()\<close>.
\<close>

definition generateChallenge ::
  "ChallengeData backend \<Rightarrow> real \<Rightarrow> real \<Rightarrow> jsstring \<Rightarrow> Difficulty \<Rightarrow> jsstring list
     \<Rightarrow> (js_error option + Challenge) \<times> effect list" where
  "generateChallenge ai rnd1 rnd2 uuid d excludeEntities =
     (let randomTheme = pick rnd1 THEMES;
          randomStructure = pick rnd2 STRUCTURES;
          recentExclusions = join (js '', '') (slice_last 20 excludeEntities);
          prompt = challengePrompt randomTheme randomStructure (difficultyContext d)
                     recentExclusions
      in case generateWithFallback ai prompt challengeSchema (11 / 10) of
           (Inl thrown, effs) \<Rightarrow> (Inl thrown, effs)
         | (Inr data, effs) \<Rightarrow>
             (Inr \<lparr>id' = uuid,
                   cardA = \<lparr>name = name (data_cardA data), type = type (data_cardA data),
                            description = None, imageUrl = imageUrl (data_cardA data),
                            color = color (data_cardA data)\<rparr>,
                   cardB = \<lparr>name = name (data_cardB data), type = type (data_cardB data),
                            description = None, imageUrl = imageUrl (data_cardB data),
                            color = color (data_cardB data)\<rparr>,
                   possibleAnswers = Some (data_possibleSolutions data)\<rparr>, effs))"


section \<open>The service: answer normaliser and validation\<close>

definition isAlefVariant :: "jschar \<Rightarrow> bool" where
  "isAlefVariant c = (c = 0x623 \<or> c = 0x625 \<or> c = 0x622)"

definition isMark :: "jschar \<Rightarrow> bool" where
  "isMark c = (0x64B \<le> c \<and> c \<le> 0x65F)"

definition article :: jsstring where
  "article = [0x627, 0x644]"

definition normalizeArabic :: "jsstring \<Rightarrow> jsstring" where
  "normalizeArabic text =
     (if text = [] then []
      else replace_leading article []
             (replace_class isMark []
               (replace_class (\<lambda>c. c = 0x649) [0x64A]
                 (replace_class (\<lambda>c. c = 0x629) [0x647]
                   (replace_class isAlefVariant [0x627]
                     (toLowerCase (trim text)))))))"

record ValidationResult =
  isValid :: bool
  reason :: jsstring
  correctAnswer :: "jsstring option"

definition correct_reason :: jsstring where
  "correct_reason =
    [0x625, 0x62C, 0x627, 0x628, 0x629, 0x20, 0x635, 0x62D, 0x64A, 0x62D, 0x629, 0x21]"

definition busy_reason :: jsstring where
  "busy_reason =
    [0x639, 0x630, 0x631, 0x627, 0x64B, 0x60C, 0x20, 0x627, 0x644, 0x62E, 0x62F, 0x645,
     0x629, 0x20, 0x645, 0x634, 0x63A, 0x648, 0x644, 0x629, 0x20, 0x62C, 0x62F, 0x627,
     0x64B, 0x2E, 0x20, 0x62D, 0x627, 0x648, 0x644, 0x20, 0x645, 0x631, 0x629, 0x20,
     0x623, 0x62E, 0x631, 0x649, 0x2E]"

text \<open>The callback of \<open>possibleAnswers.some\<close>.\<close>

definition answerMatches :: "jsstring \<Rightarrow> jsstring \<Rightarrow> bool" where
  "answerMatches normalizedInput ans =
     (let normAns = normalizeArabic ans
      in normAns = normalizedInput
         \<or> (length normAns > 3 \<and> includes_js normalizedInput normAns)
         \<or> (length normalizedInput > 3 \<and> includes_js normAns normalizedInput))"

definition validationPrompt :: "jsstring \<Rightarrow> jsstring \<Rightarrow> jsstring \<Rightarrow> jsstring" where
  "validationPrompt a b userAnswer =
     [0xA] @
     js ''    Context: Football trivia.'' @
     [0xA] @
     js ''    Question: Connect '' @
     [0x22] @
     a @
     [0x22] @
     js '' and '' @
     [0x22] @
     b @
     [0x22] @
     js ''.'' @
     [0xA] @
     js ''    User Answer: '' @
     [0x22] @
     userAnswer @
     [0x22] @
     js ''.'' @
     [0xA] @
     js ''    Verify if correct. Output in Arabic.'' @
     [0xA] @
     js ''  ''"

text \<open>
  \<open>validateAnswer\<close>: the returned object (\<open>Inr\<close>) or the thrown value (\<open>Inl\<close>),
  and the effects. The local tier returns before any request is built; the remote tier
  runs inside \<open>try\<close>, whose \<open>catch\<close> logs and returns the busy answer.
\<close>

definition validateAnswer ::
  "ValidationResult backend \<Rightarrow> jsstring \<Rightarrow> jsstring \<Rightarrow> jsstring \<Rightarrow> jsstring list
     \<Rightarrow> (js_error option + ValidationResult) \<times> effect list" where
  "validateAnswer ai a b userAnswer answers =
     (if answers \<noteq> [] \<and> list_ex (answerMatches (normalizeArabic userAnswer)) answers
      then (Inr \<lparr>isValid = True, reason = correct_reason, correctAnswer = None\<rparr>, [])
      else case generateWithFallback ai (validationPrompt a b userAnswer) validationSchema
                  (2 / 10) of
             (Inr data, effs) \<Rightarrow>
               (Inr \<lparr>isValid = isValid data, reason = reason data,
                     correctAnswer = correctAnswer data\<rparr>, effs)
           | (Inl error, effs) \<Rightarrow>
               (Inr \<lparr>isValid = False, reason = busy_reason, correctAnswer = None\<rparr>,
                effs @ [ConsoleError]))"


section \<open>App.tsx: the session state and its updates\<close>

definition TIME_LIMITS :: "Difficulty \<Rightarrow> int" where
  "TIME_LIMITS d = (case d of EASY \<Rightarrow> 90 | MEDIUM \<Rightarrow> 60 | HARD \<Rightarrow> 45)"

record App =
  gameState :: GameState
  highScore :: int
  error :: "jsstring option"
  isValidating :: bool

definition initial_App :: App where
  "initial_App =
     \<lparr>gameState = \<lparr>status = IDLE, score = 0, timeLeft = TIME_LIMITS MEDIUM,
                    currentChallenge = None, message = None, difficulty = MEDIUM,
                    history = [], seenEntities = []\<rparr>,
      highScore = 0, error = None, isValidating = False\<rparr>"

text \<open>
  The timer effect: an interval is set up exactly when the rendered state satisfies
  \<open>timerRuns\<close>, and its callback applies \<open>tick\<close> to the state.
\<close>

definition timerRuns :: "GameState \<Rightarrow> bool" where
  "timerRuns gs = (status gs = PLAYING \<and> timeLeft gs > 0)"

definition tick :: "GameState \<Rightarrow> GameState" where
  "tick prev =
     (if timeLeft prev \<le> 1 then prev\<lparr>timeLeft := 0, status := GAME_OVER\<rparr>
      else prev\<lparr>timeLeft := timeLeft prev - 1\<rparr>)"

definition start_error :: jsstring where
  "start_error =
    [0x627, 0x644, 0x62E, 0x648, 0x627, 0x62F, 0x645, 0x20, 0x645, 0x634, 0x63A, 0x648,
     0x644, 0x629, 0x20, 0x62D, 0x627, 0x644, 0x64A, 0x627, 0x64B, 0x20, 0x623, 0x648,
     0x20, 0x627, 0x646, 0x62A, 0x647, 0x62A, 0x20, 0x62D, 0x635, 0x629, 0x20, 0x627,
     0x644, 0x627, 0x633, 0x62A, 0x62E, 0x62F, 0x627, 0x645, 0x2E, 0x20, 0x64A, 0x631,
     0x62C, 0x649, 0x20, 0x627, 0x644, 0x645, 0x62D, 0x627, 0x648, 0x644, 0x629, 0x20,
     0x644, 0x627, 0x62D, 0x642, 0x627, 0x64B, 0x2E]"

definition next_round_error :: jsstring where
  "next_round_error =
    [0x62D, 0x62F, 0x62B, 0x20, 0x62E, 0x637, 0x623, 0x20, 0x623, 0x62B, 0x646, 0x627,
     0x621, 0x20, 0x62A, 0x62D, 0x645, 0x64A, 0x644, 0x20, 0x627, 0x644, 0x633, 0x624,
     0x627, 0x644, 0x20, 0x627, 0x644, 0x62A, 0x627, 0x644, 0x64A, 0x2E]"

text \<open>
  \<open>startGame\<close> is asynchronous. \<open>startGame_begin\<close> is what it does before the
  \<open>await\<close>; \<open>startGame_resolved\<close> and \<open>startGame_rejected\<close> are the two
  continuations. Each \<open>setGameState\<close> applies its updater to the state current at
  that moment, so a handler is not modelled as one function from state to state: the
  part before the \<open>await\<close> and the continuation are separate events of the running
  application (section ``The running application''), and other events may come between
  them. The same holds for \<open>handleNextRound\<close>.
\<close>

definition startGame_begin :: "App \<Rightarrow> App" where
  "startGame_begin a =
     a\<lparr>error := None,
       gameState := (gameState a)\<lparr>status := LOADING_CHALLENGE, score := 0,
                      timeLeft := TIME_LIMITS (difficulty (gameState a)),
                      history := [], seenEntities := []\<rparr>\<rparr>"

definition startGame_resolved :: "Challenge \<Rightarrow> App \<Rightarrow> App" where
  "startGame_resolved challenge a =
     a\<lparr>gameState := (gameState a)\<lparr>status := PLAYING, currentChallenge := Some challenge,
                      seenEntities := [name (cardA challenge), name (cardB challenge)]\<rparr>\<rparr>"

definition startGame_rejected :: "App \<Rightarrow> App" where
  "startGame_rejected a =
     a\<lparr>gameState := (gameState a)\<lparr>status := IDLE\<rparr>, error := Some start_error\<rparr>"

definition handleNextRound_begin :: "int \<Rightarrow> App \<Rightarrow> App" where
  "handleNextRound_begin bonusTime a =
     a\<lparr>error := None,
       gameState := (gameState a)\<lparr>
          score := (if bonusTime > 0 then score (gameState a) + 1 else score (gameState a)),
          timeLeft := timeLeft (gameState a) + bonusTime,
          status := LOADING_CHALLENGE\<rparr>\<rparr>"

definition handleNextRound_resolved :: "Challenge \<Rightarrow> App \<Rightarrow> App" where
  "handleNextRound_resolved challenge a =
     a\<lparr>gameState := (gameState a)\<lparr>status := PLAYING, currentChallenge := Some challenge,
                      seenEntities := seenEntities (gameState a)
                                        @ [name (cardA challenge), name (cardB challenge)]\<rparr>\<rparr>"

definition handleNextRound_rejected :: "App \<Rightarrow> App" where
  "handleNextRound_rejected a =
     a\<lparr>gameState := (gameState a)\<lparr>status := GAME_OVER\<rparr>, error := Some next_round_error\<rparr>"

definition resetGame :: "App \<Rightarrow> App" where
  "resetGame a =
     a\<lparr>highScore := (if score (gameState a) > highScore a then score (gameState a)
                      else highScore a),
       error := None,
       gameState := (gameState a)\<lparr>status := IDLE\<rparr>\<rparr>"

definition setDifficulty :: "Difficulty \<Rightarrow> App \<Rightarrow> App" where
  "setDifficulty level a = a\<lparr>gameState := (gameState a)\<lparr>difficulty := level\<rparr>\<rparr>"


section \<open>GameScreen.tsx: the state of the mounted game screen\<close>

datatype FeedbackType = fb_success | fb_error

record Feedback =
  fb_type :: "FeedbackType option"
  fb_message :: jsstring

record Screen =
  input :: jsstring
  validating :: bool
  feedback :: Feedback

definition no_feedback :: Feedback where
  "no_feedback = \<lparr>fb_type = None, fb_message = []\<rparr>"

definition initial_Screen :: Screen where
  "initial_Screen = \<lparr>input = [], validating = False, feedback = no_feedback\<rparr>"

definition success_feedback :: jsstring where
  "success_feedback =
    [0x625, 0x62C, 0x627, 0x628, 0x629, 0x20, 0x635, 0x62D, 0x64A, 0x62D, 0x629, 0x21,
     0x20, 0x2B, 0x31, 0x30, 0x20, 0x62B, 0x648, 0x627, 0x646, 0x64A]"

definition wrong_feedback :: jsstring where
  "wrong_feedback =
    [0x625, 0x62C, 0x627, 0x628, 0x629, 0x20, 0x62E, 0x627, 0x637, 0x626, 0x629, 0x60C,
     0x20, 0x62D, 0x627, 0x648, 0x644, 0x20, 0x645, 0x631, 0x629, 0x20, 0x623, 0x62E,
     0x631, 0x649]"


section \<open>The running application\<close>

text \<open>
  The application is event driven: user events, timer ticks and the continuations of
  asynchronous calls run one at a time, each to completion. A state of the running
  application is the App state, the state of the mounted GameScreen (with the number of
  its instance: a remount starts from a fresh state, and a continuation of an unmounted
  instance sets nothing), and the asynchronous operations still outstanding, each with
  the values its closure captured.
\<close>

datatype pending =
    StartGame_await Difficulty "jsstring list"
  | NextRound_await Difficulty "jsstring list"
  | Validate_await nat Challenge jsstring GameState
  | NextRound_timeout nat GameState

record System =
  app :: App
  screen :: "(nat \<times> Screen) option"
  mounts :: nat
  pending :: "pending list"

definition initial_System :: System where
  "initial_System = \<lparr>app = initial_App, screen = None, mounts = 0, pending = []\<rparr>"

text \<open>
  GameScreen is rendered exactly when
  \<open>gameState.status === GameStatus.PLAYING && gameState.currentChallenge\<close>.
\<close>

definition render :: "System \<Rightarrow> System" where
  "render s =
     (if status (gameState (app s)) = PLAYING \<and> currentChallenge (gameState (app s)) \<noteq> None
      then (case screen s of
              None \<Rightarrow> s\<lparr>screen := Some (mounts s, initial_Screen), mounts := mounts s + 1\<rparr>
            | Some _ \<Rightarrow> s)
      else s\<lparr>screen := None\<rparr>)"

definition on_instance :: "nat \<Rightarrow> (Screen \<Rightarrow> Screen) \<Rightarrow> System \<Rightarrow> System" where
  "on_instance i f s =
     (case screen s of
        None \<Rightarrow> s
      | Some (j, sc) \<Rightarrow> if j = i then s\<lparr>screen := Some (j, f sc)\<rparr> else s)"

definition settle :: "nat \<Rightarrow> System \<Rightarrow> System" where
  "settle k s = s\<lparr>pending := take k (pending s) @ drop (Suc k) (pending s)\<rparr>"

definition await :: "pending \<Rightarrow> System \<Rightarrow> System" where
  "await p s = s\<lparr>pending := pending s @ [p]\<rparr>"

definition update_app :: "(App \<Rightarrow> App) \<Rightarrow> System \<Rightarrow> System" where
  "update_app f s = s\<lparr>app := f (app s)\<rparr>"

text \<open>\<open>handleSubmit\<close> up to its \<open>await\<close>.\<close>

definition handleSubmit :: "System \<Rightarrow> System" where
  "handleSubmit s =
     (case (screen s, currentChallenge (gameState (app s))) of
        (Some (i, sc), Some challenge) \<Rightarrow>
          if trim (input sc) = [] \<or> validating sc then s
          else await (Validate_await i challenge (input sc) (gameState (app s)))
                 (update_app (\<lambda>a. a\<lparr>isValidating := True\<rparr>)
                   (on_instance i (\<lambda>sc. sc\<lparr>validating := True, feedback := no_feedback\<rparr>) s))
      | _ \<Rightarrow> s)"

text \<open>The continuations of \<open>handleSubmit\<close> after \<open>validateAnswer\<close> has returned.\<close>

definition handleSubmit_result :: "nat \<Rightarrow> GameState \<Rightarrow> ValidationResult \<Rightarrow> System \<Rightarrow> System" where
  "handleSubmit_result i rendered result s =
     (if isValid result
      then await (NextRound_timeout i rendered)
             (on_instance i
                (\<lambda>sc. sc\<lparr>feedback := \<lparr>fb_type = Some fb_success,
                                       fb_message = success_feedback\<rparr>\<rparr>) s)
      else update_app (\<lambda>a. a\<lparr>isValidating := False\<rparr>)
             (on_instance i
                (\<lambda>sc. sc\<lparr>feedback := \<lparr>fb_type = Some fb_error,
                                       fb_message = (if reason result = [] then wrong_feedback
                                                     else reason result)\<rparr>,
                         validating := False\<rparr>) s))"

text \<open>The callback of the 1500 ms \<open>setTimeout\<close>: it ends with \<open>onNextRound(10)\<close>.\<close>

definition handleSubmit_timeout :: "nat \<Rightarrow> GameState \<Rightarrow> System \<Rightarrow> System" where
  "handleSubmit_timeout i rendered s =
     await (NextRound_await (difficulty rendered) (seenEntities rendered))
       (update_app (handleNextRound_begin 10)
         (update_app (\<lambda>a. a\<lparr>isValidating := False\<rparr>)
           (on_instance i
              (\<lambda>sc. sc\<lparr>input := [], feedback := no_feedback, validating := False\<rparr>) s)))"

text \<open>\<open>handleSkip\<close>: \<open>onNextRound(0)\<close>, then the input and the feedback are cleared.\<close>

definition handleSkip :: "System \<Rightarrow> System" where
  "handleSkip s =
     (case screen s of
        None \<Rightarrow> s
      | Some (i, sc) \<Rightarrow>
          on_instance i (\<lambda>sc. sc\<lparr>input := [], feedback := no_feedback\<rparr>)
            (await (NextRound_await (difficulty (gameState (app s)))
                      (seenEntities (gameState (app s))))
               (update_app (handleNextRound_begin 0) s)))"

text \<open>
  The events. A user event is enabled when its control is rendered and not disabled;
  a tick when the interval is set up; a settlement when its operation is outstanding.
  A settlement carries what the outside world answers: the backend, and the random
  values \<open>generateChallenge\<close> draws. The loading overlay, shown while a challenge is
  loading or an answer is being validated, covers the page but disables nothing: the
  buttons beneath it stay in the document, enabled, and can be operated from the keyboard.
\<close>

datatype event =
    Tick
  | Click_start
  | Click_menu
  | Click_difficulty Difficulty
  | Change_input jsstring
  | Submit
  | Click_skip
  | Generation_settles nat "ChallengeData backend" real real jsstring
  | Validation_settles nat "ValidationResult backend"
  | Timeout_fires nat

definition generation_settled ::
  "pending \<Rightarrow> ChallengeData backend \<Rightarrow> real \<Rightarrow> real \<Rightarrow> jsstring \<Rightarrow> System \<Rightarrow> System option" where
  "generation_settled p ai rnd1 rnd2 uuid s =
     (case p of
        StartGame_await d excluded \<Rightarrow>
          (case fst (generateChallenge ai rnd1 rnd2 uuid d excluded) of
             Inr challenge \<Rightarrow> Some (update_app (startGame_resolved challenge) s)
           | Inl e \<Rightarrow> Some (update_app startGame_rejected s))
      | NextRound_await d excluded \<Rightarrow>
          (case fst (generateChallenge ai rnd1 rnd2 uuid d excluded) of
             Inr challenge \<Rightarrow> Some (update_app (handleNextRound_resolved challenge) s)
           | Inl e \<Rightarrow> Some (update_app handleNextRound_rejected s))
      | _ \<Rightarrow> None)"

definition validation_settled ::
  "pending \<Rightarrow> ValidationResult backend \<Rightarrow> System \<Rightarrow> System option" where
  "validation_settled p ai s =
     (case p of
        Validate_await i challenge text rendered \<Rightarrow>
          (case fst (validateAnswer ai (name (cardA challenge)) (name (cardB challenge)) text
                       (case possibleAnswers challenge of None \<Rightarrow> [] | Some answers \<Rightarrow> answers)) of
             Inr result \<Rightarrow> Some (handleSubmit_result i rendered result s)
           | Inl e \<Rightarrow> Some s)
      | _ \<Rightarrow> None)"

definition timeout_fired :: "pending \<Rightarrow> System \<Rightarrow> System option" where
  "timeout_fired p s =
     (case p of
        NextRound_timeout i rendered \<Rightarrow> Some (handleSubmit_timeout i rendered s)
      | _ \<Rightarrow> None)"

fun step :: "event \<Rightarrow> System \<Rightarrow> System option" where
  "step Tick s =
     (if timerRuns (gameState (app s))
      then Some (render (update_app (\<lambda>a. a\<lparr>gameState := tick (gameState a)\<rparr>) s))
      else None)"
| "step Click_start s =
     (if status (gameState (app s)) = IDLE \<or> status (gameState (app s)) = GAME_OVER
      then Some (render (await (StartGame_await (difficulty (gameState (app s))) [])
                           (update_app startGame_begin s)))
      else None)"
| "step Click_menu s =
     (if status (gameState (app s)) = GAME_OVER
      then Some (render (update_app resetGame s))
      else None)"
| "step (Click_difficulty level) s =
     (if status (gameState (app s)) = IDLE
      then Some (render (update_app (setDifficulty level) s))
      else None)"
| "step (Change_input text) s =
     (case screen s of
        None \<Rightarrow> None
      | Some (i, sc) \<Rightarrow>
          if validating sc then None else Some (s\<lparr>screen := Some (i, sc\<lparr>input := text\<rparr>)\<rparr>))"
| "step Submit s =
     (case screen s of None \<Rightarrow> None | Some _ \<Rightarrow> Some (handleSubmit s))"
| "step Click_skip s =
     (case screen s of
        None \<Rightarrow> None
      | Some (i, sc) \<Rightarrow> if validating sc then None else Some (render (handleSkip s)))"
| "step (Generation_settles k ai rnd1 rnd2 uuid) s =
     (if k < length (pending s)
      then map_option render (generation_settled (pending s ! k) ai rnd1 rnd2 uuid (settle k s))
      else None)"
| "step (Validation_settles k ai) s =
     (if k < length (pending s)
      then map_option render (validation_settled (pending s ! k) ai (settle k s))
      else None)"
| "step (Timeout_fires k) s =
     (if k < length (pending s)
      then map_option render (timeout_fired (pending s ! k) (settle k s))
      else None)"

fun run :: "event list \<Rightarrow> System \<Rightarrow> System option" where
  "run [] s = Some s"
| "run (e # es) s = (case step e s of None \<Rightarrow> None | Some s' \<Rightarrow> run es s')"

inductive reachable :: "System \<Rightarrow> bool" where
  reachable_initial: "reachable initial_System"
| reachable_step: "reachable s \<Longrightarrow> step e s = Some s' \<Longrightarrow> reachable s'"

text \<open>
  A generation response is stale when it settles after its session has ended: the
  status is already GAME_OVER, or back to IDLE. The code applies it all the same.
\<close>

definition stale :: "event \<Rightarrow> System \<Rightarrow> bool" where
  "stale e s =
     (case e of
        Generation_settles k ai rnd1 rnd2 uuid \<Rightarrow>
          status (gameState (app s)) = IDLE \<or> status (gameState (app s)) = GAME_OVER
      | _ \<Rightarrow> False)"

inductive reachable_fresh :: "System \<Rightarrow> bool" where
  fresh_initial: "reachable_fresh initial_System"
| fresh_step: "reachable_fresh s \<Longrightarrow> step e s = Some s' \<Longrightarrow> \<not> stale e s \<Longrightarrow> reachable_fresh s'"


text \<open>
  The game screen instance whose submission an outstanding operation belongs to, and the
  number of outstanding operations of an instance: validations awaited, and timeouts
  of accepted answers not yet fired.
\<close>

fun submitted_by :: "pending \<Rightarrow> nat option" where
  "submitted_by (Validate_await i challenge text rendered) = Some i"
| "submitted_by (NextRound_timeout i rendered) = Some i"
| "submitted_by (StartGame_await d excluded) = None"
| "submitted_by (NextRound_await d excluded) = None"

text \<open>
  The \<open>gameState\<close> of the render a submission belongs to: its \<open>onNextRound\<close> is
  the \<open>handleNextRound\<close> of that render, which reads the difficulty and the seen
  names from it.
\<close>

fun captured :: "pending \<Rightarrow> GameState option" where
  "captured (Validate_await i challenge text rendered) = Some rendered"
| "captured (NextRound_timeout i rendered) = Some rendered"
| "captured (StartGame_await d excluded) = None"
| "captured (NextRound_await d excluded) = None"

definition in_flight :: "nat \<Rightarrow> System \<Rightarrow> nat" where
  "in_flight i s = length (filter (\<lambda>p. submitted_by p = Some i) (pending s))"

text \<open>
  Every outstanding submission belongs to an instance that has been mounted, and the
  mounted instance has one outstanding submission while its \<open>validating\<close> flag is
  set and none otherwise.
\<close>

definition tracked :: "System \<Rightarrow> bool" where
  "tracked s =
     ((\<forall>p\<in>set (pending s). \<forall>j. submitted_by p = Some j \<longrightarrow> j < mounts s)
      \<and> (\<forall>i sc. screen s = Some (i, sc) \<longrightarrow>
            i < mounts s \<and> in_flight i s = (if validating sc then 1 else 0)))"

text \<open>
  \<open>showLoading\<close> of App.tsx: whether the loading overlay is rendered. A run is
  uncovered when the player acts only while the overlay is not shown, as a player with
  a pointing device must.
\<close>

definition showLoading :: "App \<Rightarrow> bool" where
  "showLoading a = (status (gameState a) = LOADING_CHALLENGE \<or> isValidating a)"

fun user_event :: "event \<Rightarrow> bool" where
  "user_event Tick = False"
| "user_event (Generation_settles k ai rnd1 rnd2 uuid) = False"
| "user_event (Validation_settles k ai) = False"
| "user_event (Timeout_fires k) = False"
| "user_event _ = True"

inductive reachable_uncovered :: "System \<Rightarrow> bool" where
  uncovered_initial: "reachable_uncovered initial_System"
| uncovered_step:
    "reachable_uncovered s \<Longrightarrow> step e s = Some s'
       \<Longrightarrow> (user_event e \<longrightarrow> \<not> showLoading (app s)) \<Longrightarrow> reachable_uncovered s'"

text \<open>The run of a list of events, if it is an uncovered one.\<close>

fun run_uncovered :: "event list \<Rightarrow> System \<Rightarrow> System option" where
  "run_uncovered [] s = Some s"
| "run_uncovered (e # es) s =
     (if user_event e \<and> showLoading (app s) then None
      else case step e s of None \<Rightarrow> None | Some s' \<Rightarrow> run_uncovered es s')"

text \<open>
  In an uncovered run the asynchronous operations are serialised: a generation request
  is outstanding exactly while the status is LOADING_CHALLENGE, a submission exactly
  while \<open>isValidating\<close> is set, and never both.
\<close>

definition generating :: "System \<Rightarrow> nat" where
  "generating s = length (filter (\<lambda>p. submitted_by p = None) (pending s))"

definition submitting :: "System \<Rightarrow> nat" where
  "submitting s = length (filter (\<lambda>p. submitted_by p \<noteq> None) (pending s))"

definition serial :: "System \<Rightarrow> bool" where
  "serial s =
     (generating s = (if status (gameState (app s)) = LOADING_CHALLENGE then 1 else 0)
      \<and> submitting s = (if isValidating (app s) then 1 else 0)
      \<and> \<not> (status (gameState (app s)) = LOADING_CHALLENGE \<and> isValidating (app s)))"


section \<open>Observations and concrete environments\<close>

text \<open>The requests sent to the backend, in order.\<close>

fun requests :: "effect list \<Rightarrow> request list" where
  "requests [] = []"
| "requests (GenerateContent r # effs) = r # requests effs"
| "requests (_ # effs) = requests effs"

text \<open>
  Backends for the examples: one that cannot be reached at all, one that answers every
  request with a rate-limit error, one whose primary model is rate limited while the
  fallback model answers, and one that answers every request.
\<close>

definition unreachable_backend :: "'a backend" where
  "unreachable_backend =
     \<lparr>generateContent = (\<lambda>req. Inl \<lparr>err_text = js ''TypeError: fetch failed'',
                                     err_status = None\<rparr>),
      JSON_parse = (\<lambda>t. Inl \<lparr>err_text = js ''SyntaxError'', err_status = None\<rparr>)\<rparr>"

definition rate_limited_backend :: "'a backend" where
  "rate_limited_backend =
     \<lparr>generateContent = (\<lambda>req. Inl \<lparr>err_text = js ''ApiError: quota exceeded'',
                                     err_status = Some 429\<rparr>),
      JSON_parse = (\<lambda>t. Inl \<lparr>err_text = js ''SyntaxError'', err_status = None\<rparr>)\<rparr>"




definition answering_backend :: "'a \<Rightarrow> 'a backend" where
  "answering_backend data =
     \<lparr>generateContent = (\<lambda>req. Inr (Some (js ''{...}''))),
      JSON_parse = (\<lambda>t. Inr data)\<rparr>"

definition Ronaldinho_Gaucho :: jsstring where
  "Ronaldinho_Gaucho = js ''Ronaldinho Ga'' @ [0xFA] @ js ''cho''"

definition sample_data :: ChallengeData where
  "sample_data =
     ChallengeData
       \<lparr>name = js ''Barcelona'', type = TEAM, description = None, imageUrl = None,
        color = None\<rparr>
       \<lparr>name = js ''Milan'', type = TEAM, description = None, imageUrl = None,
        color = None\<rparr>
       [js ''Ronaldo'', Ronaldinho_Gaucho]"

definition sample_challenge :: Challenge where
  "sample_challenge =
     \<lparr>id' = js ''c1'',
      cardA = \<lparr>name = js ''Barcelona'', type = TEAM, description = None, imageUrl = None,
               color = None\<rparr>,
      cardB = \<lparr>name = js ''Milan'', type = TEAM, description = None, imageUrl = None,
               color = None\<rparr>,
      possibleAnswers = Some [js ''Ronaldo'', Ronaldinho_Gaucho]\<rparr>"

text \<open>
  Session states for the examples: the App state after a first challenge has arrived,
  the running application at that moment, and the same with two spaces typed into the
  input field of the game screen.
\<close>

definition sample_app :: App where
  "sample_app = startGame_resolved sample_challenge (startGame_begin initial_App)"

definition whitespace_System :: System where
  "whitespace_System =
     \<lparr>app = sample_app, screen = Some (0, initial_Screen\<lparr>input := js ''  ''\<rparr>),
      mounts = 1, pending = []\<rparr>"

definition first_round_System :: System where
  "first_round_System =
     \<lparr>app = sample_app, screen = Some (0, initial_Screen), mounts = 1, pending = []\<rparr>"

text \<open>The player starts a game, the first challenge arrives, the player submits an answer.\<close>

definition submit_trace :: "event list" where
  "submit_trace =
     [Click_start,
      Generation_settles 0 (answering_backend sample_data) 0 0 (js ''c1''),
      Change_input (js ''Kaka''),
      Submit]"

definition submitted_System :: System where
  "submitted_System =
     \<lparr>app = sample_app\<lparr>isValidating := True\<rparr>,
      screen = Some (0, \<lparr>input = js ''Kaka'', validating = True, feedback = no_feedback\<rparr>),
      mounts = 1,
      pending = [Validate_await 0 sample_challenge (js ''Kaka'') (gameState sample_app)]\<rparr>"

text \<open>The same, and the backend accepts the answer.\<close>

definition accepting_result :: ValidationResult where
  "accepting_result = \<lparr>isValid = True, reason = js ''ok'', correctAnswer = None\<rparr>"

definition accept_trace :: "event list" where
  "accept_trace = submit_trace @ [Validation_settles 0 (answering_backend accepting_result)]"

definition accepted_System :: System where
  "accepted_System =
     \<lparr>app = sample_app\<lparr>isValidating := True\<rparr>,
      screen = Some (0, \<lparr>input = js ''Kaka'', validating = True,
                          feedback = \<lparr>fb_type = Some fb_success,
                                       fb_message = success_feedback\<rparr>\<rparr>),
      mounts = 1,
      pending = [NextRound_timeout 0 (gameState sample_app)]\<rparr>"

text \<open>The player starts a game, the first challenge arrives, the player skips it.\<close>

definition skip_trace :: "event list" where
  "skip_trace =
     [Click_start,
      Generation_settles 0 (answering_backend sample_data) 0 0 (js ''c1''),
      Click_skip]"

text \<open>
  The player starts a game and submits \<open>Kaka\<close>, which matches no accepted answer
  locally, so the backend is asked; the clock runs out before the backend answers, and
  the player starts again from the game-over screen (from the keyboard: the overlay is
  up as long as the validation is outstanding). Then the backend accepts the answer
  of the first game, the timeout of that submission calls \<open>onNextRound(10)\<close>, and
  two generation requests are outstanding. The first to arrive starts the second game;
  the clock runs out again; then the other one arrives.
\<close>

definition ticks :: "nat \<Rightarrow> event list" where
  "ticks n = replicate n Tick"

definition stale_response_trace :: "event list" where
  "stale_response_trace =
     [Click_start,
      Generation_settles 0 (answering_backend sample_data) 0 0 (js ''c1''),
      Change_input (js ''Kaka''),
      Submit]
     @ ticks 60
     @ [Click_start,
        Validation_settles 0 (answering_backend accepting_result),
        Timeout_fires 1,
        Generation_settles 0 (answering_backend sample_data) 0 0 (js ''c2'')]
     @ ticks 70
     @ [Generation_settles 0 (answering_backend sample_data) 0 0 (js ''c3'')]"

text \<open>
  The same beginning: the clock runs out while the validation of \<open>Kaka\<close> is
  outstanding, and the player starts again. In the first continuation the answer of the
  first game is then accepted and its timeout calls \<open>onNextRound(10)\<close> before the
  start request is settled, and the start request fails.
\<close>

definition late_failure_trace :: "event list" where
  "late_failure_trace =
     submit_trace
     @ ticks 60
     @ [Click_start,
        Validation_settles 0 (answering_backend accepting_result),
        Timeout_fires 1,
        Generation_settles 0 unreachable_backend 0 0 (js ''c2'')]"

text \<open>
  In the second continuation the start request is answered first, with another pair of
  cards, and the second game is being played when the answer of the first game is
  accepted.
\<close>

definition second_data :: ChallengeData where
  "second_data =
     ChallengeData
       \<lparr>name = js ''Real'', type = TEAM, description = None, imageUrl = None,
        color = None\<rparr>
       \<lparr>name = js ''Inter'', type = TEAM, description = None, imageUrl = None,
        color = None\<rparr>
       [js ''Ronaldo'']"

definition second_game_trace :: "event list" where
  "second_game_trace =
     submit_trace
     @ ticks 60
     @ [Click_start,
        Generation_settles 1 (answering_backend second_data) 0 0 (js ''c2'')]"

definition stale_exclusion_trace :: "event list" where
  "stale_exclusion_trace =
     second_game_trace @ [Validation_settles 0 (answering_backend accepting_result)]"

definition second_submission_trace :: "event list" where
  "second_submission_trace = second_game_trace @ [Change_input (js ''Pele'')]"

text \<open>
  The running application after a click on the start button in the initial state, and
  after the first challenge has been skipped.
\<close>

definition loading_System :: System where
  "loading_System =
     \<lparr>app = startGame_begin initial_App, screen = None, mounts = 0,
      pending = [StartGame_await MEDIUM []]\<rparr>"

definition skipped_System :: System where
  "skipped_System =
     \<lparr>app = handleNextRound_begin 0 sample_app, screen = None, mounts = 1,
      pending = [NextRound_await MEDIUM [js ''Barcelona'', js ''Milan'']]\<rparr>"

section \<open>The normaliser is not idempotent\<close>

lemma replace_class_id: "\<forall>c\<in>set s. \<not> cls c \<Longrightarrow> replace_class cls r s = s"
  by (induction s) (auto simp: replace_class_def)

lemma set_replace_class:
  "c \<in> set (replace_class cls r s) \<Longrightarrow> (c \<in> set s \<and> \<not> cls c) \<or> c \<in> set r"
  by (induction s) (auto simp: replace_class_def split: if_splits)

lemma set_replace_leading_nil: "c \<in> set (replace_leading p [] s) \<Longrightarrow> c \<in> set s"
  by (auto simp: replace_leading_def split: if_splits dest: in_set_dropD)

text \<open>
  No code unit that one of the four global replacements rewrites or deletes occurs in a
  normalised string.
\<close>

lemma normalizeArabic_units:
  assumes "c \<in> set (normalizeArabic x)"
  shows "\<not> isAlefVariant c \<and> c \<noteq> 0x629 \<and> c \<noteq> 0x649 \<and> \<not> isMark c"
proof (cases "x = []")
  case True
  with assms show ?thesis by (simp add: normalizeArabic_def)
next
  case False
  let ?z1 = "replace_class isAlefVariant [0x627] (toLowerCase (trim x))"
  let ?z2 = "replace_class (\<lambda>c. c = 0x629) [0x647] ?z1"
  let ?z3 = "replace_class (\<lambda>c. c = 0x649) [0x64A] ?z2"
  let ?z4 = "replace_class isMark [] ?z3"
  from assms False have "c \<in> set ?z4"
    by (auto simp: normalizeArabic_def dest: set_replace_leading_nil)
  then have m: "\<not> isMark c" and c3: "c \<in> set ?z3"
    using set_replace_class [of c isMark "[]" ?z3] by auto
  from c3 have "(c \<in> set ?z2 \<and> c \<noteq> 0x649) \<or> c = 0x64A"
    using set_replace_class [of c "\<lambda>c. c = 0x649" "[0x64A]" ?z2] by auto
  moreover have "c \<in> set ?z2 \<Longrightarrow> (c \<in> set ?z1 \<and> c \<noteq> 0x629) \<or> c = 0x647"
    using set_replace_class [of c "\<lambda>c. c = 0x629" "[0x647]" ?z1] by auto
  moreover have "c \<in> set ?z1 \<Longrightarrow> \<not> isAlefVariant c \<or> c = 0x627"
    using set_replace_class [of c isAlefVariant "[0x627]" "toLowerCase (trim x)"] by auto
  ultimately show ?thesis using m
    by (auto simp: isAlefVariant_def)
qed

lemmas normalizeArabic_eval =
  normalizeArabic_def js_def trim_def isWhiteSpace_def toLowerCase_def toLowerCase_unit_def
  replace_class_def replace_leading_def article_def isMark_def isAlefVariant_def

text \<open>
  C3, as stated, fails: the article is stripped once per call, so a string that begins
  with the article twice loses one article in each of two successive calls. The input is
  the four code units of the article written twice.
\<close>

theorem normalizeArabic_not_idempotent:
  "normalizeArabic (normalizeArabic [0x627, 0x644, 0x627, 0x644])
     \<noteq> normalizeArabic [0x627, 0x644, 0x627, 0x644]"
  by (simp add: normalizeArabic_eval)

text \<open>
  Stripping the article, or a mark, can also bring white space to the front, which only
  the next call trims.
\<close>

lemma normalizeArabic_article_then_space:
  "normalizeArabic [0x627, 0x644, 0x20, 0x628] = [0x20, 0x628]
   \<and> normalizeArabic [0x20, 0x628] = [0x628]"
  by (simp add: normalizeArabic_eval)

text \<open>
  C3, amended: a second call of the normaliser changes nothing whenever the result of
  the first call is already trimmed, already in lower case and does not begin with the
  article. The letter replacements and the removal of marks never need a second pass.
\<close>

theorem normalizeArabic_idempotent_when_settled:
  assumes "trim (normalizeArabic x) = normalizeArabic x"
    and "toLowerCase (normalizeArabic x) = normalizeArabic x"
    and "\<not> prefix article (normalizeArabic x)"
  shows "normalizeArabic (normalizeArabic x) = normalizeArabic x"
proof -
  let ?y = "normalizeArabic x"
  have u: "\<forall>c\<in>set ?y. \<not> isAlefVariant c" "\<forall>c\<in>set ?y. \<not> c = 0x629"
    "\<forall>c\<in>set ?y. \<not> c = 0x649" "\<forall>c\<in>set ?y. \<not> isMark c"
    using normalizeArabic_units [of _ x] by blast+
  have "normalizeArabic ?y =
      (if ?y = [] then []
       else replace_leading article []
             (replace_class isMark []
               (replace_class (\<lambda>c. c = 0x649) [0x64A]
                 (replace_class (\<lambda>c. c = 0x629) [0x647]
                   (replace_class isAlefVariant [0x627] ?y)))))"
    unfolding normalizeArabic_def [of ?y] using assms(1,2) by simp
  also have "\<dots> = (if ?y = [] then [] else replace_leading article [] ?y)"
    using u by (simp add: replace_class_id)
  also have "\<dots> = ?y"
    using assms(3) by (simp add: replace_leading_def)
  finally show ?thesis .
qed

text \<open>The amended C3 at the input \<open>Messi\<close>, whose normal form is \<open>messi\<close>.\<close>

theorem normalizeArabic_idempotent_when_settled_witness:
  "normalizeArabic (js ''Messi'') = js ''messi''
   \<and> trim (js ''messi'') = js ''messi''
   \<and> toLowerCase (js ''messi'') = js ''messi''
   \<and> \<not> prefix article (js ''messi'')
   \<and> normalizeArabic (normalizeArabic (js ''Messi'')) = normalizeArabic (js ''Messi'')"
proof -
  have n: "normalizeArabic (js ''Messi'') = js ''messi''"
    by (simp add: normalizeArabic_eval)
  have t: "trim (js ''messi'') = js ''messi''"
    by (simp add: js_def trim_def isWhiteSpace_def)
  have l: "toLowerCase (js ''messi'') = js ''messi''"
    by (simp add: js_def toLowerCase_def toLowerCase_unit_def)
  have p: "\<not> prefix article (js ''messi'')"
    by (simp add: js_def article_def)
  show ?thesis
    using normalizeArabic_idempotent_when_settled [of "js ''Messi''"] n t l p by simp
qed

section \<open>Validation and the fallback\<close>

lemma includes_js_iff: "includes_js hay needle \<longleftrightarrow> (\<exists>pre post. hay = pre @ needle @ post)"
  by (simp add: includes_js_def sublist_def)

lemma validateAnswer_local:
  "answers \<noteq> [] \<Longrightarrow> list_ex (answerMatches (normalizeArabic userAnswer)) answers
     \<Longrightarrow> validateAnswer ai a b userAnswer answers
           = (Inr \<lparr>isValid = True, reason = correct_reason, correctAnswer = None\<rparr>, [])"
  by (simp add: validateAnswer_def)

text \<open>
  C4: with a non-empty list of accepted answers, if the normalised user answer equals a
  normalised accepted answer, or one of the two contains the other and the contained one
  is longer than 3 code units, then \<open>validateAnswer\<close> returns \<open>isValid: true\<close> with
  the fixed success reason, and its list of effects is empty: no request is sent.
\<close>

theorem validateAnswer_local_match:
  assumes "answers \<noteq> []" and "ans \<in> set answers"
    and "normalizeArabic ans = normalizeArabic userAnswer
       \<or> (length (normalizeArabic ans) > 3
           \<and> (\<exists>pre post. normalizeArabic userAnswer = pre @ normalizeArabic ans @ post))
       \<or> (length (normalizeArabic userAnswer) > 3
           \<and> (\<exists>pre post. normalizeArabic ans = pre @ normalizeArabic userAnswer @ post))"
  shows "validateAnswer ai a b userAnswer answers
           = (Inr \<lparr>isValid = True, reason = correct_reason, correctAnswer = None\<rparr>, [])"
proof -
  from assms(3) have "answerMatches (normalizeArabic userAnswer) ans"
    unfolding answerMatches_def Let_def includes_js_iff by blast
  with assms(2) have "list_ex (answerMatches (normalizeArabic userAnswer)) answers"
    unfolding list_ex_iff by blast
  with assms(1) show ?thesis
    by (rule validateAnswer_local)
qed

lemma normalizeArabic_Ronaldinho: "normalizeArabic (js ''Ronaldinho'') = js ''ronaldinho''"
  by (simp add: normalizeArabic_eval)

lemma normalizeArabic_Gaucho:
  "normalizeArabic Ronaldinho_Gaucho = js ''ronaldinho'' @ js '' ga'' @ [0xFA] @ js ''cho''"
  by (simp add: normalizeArabic_eval Ronaldinho_Gaucho_def)

text \<open>
  C4 at Scenario B of the specification: the answer \<open>Ronaldinho\<close> against the accepted
  answers \<open>Ronaldo\<close> and \<open>Ronaldinho Gaucho\<close> (with an acute on the u).
\<close>

theorem validateAnswer_local_match_witness:
  "validateAnswer unreachable_backend (js ''Barcelona'') (js ''Milan'') (js ''Ronaldinho'')
     [js ''Ronaldo'', Ronaldinho_Gaucho]
   = (Inr \<lparr>isValid = True, reason = correct_reason, correctAnswer = None\<rparr>, [])"
proof -
  have 1: "[js ''Ronaldo'', Ronaldinho_Gaucho] \<noteq> []" by simp
  have 2: "Ronaldinho_Gaucho \<in> set [js ''Ronaldo'', Ronaldinho_Gaucho]" by simp
  have 3: "length (normalizeArabic (js ''Ronaldinho'')) > 3"
    by (simp only: normalizeArabic_Ronaldinho) (simp add: js_def)
  have 4: "normalizeArabic Ronaldinho_Gaucho
             = [] @ normalizeArabic (js ''Ronaldinho'') @ (js '' ga'' @ [0xFA] @ js ''cho'')"
    by (simp only: normalizeArabic_Ronaldinho normalizeArabic_Gaucho append_Nil)
  show ?thesis
    by (rule validateAnswer_local_match [OF 1 2]) (use 3 4 in blast)
qed

lemma validateAnswer_never_throws: "\<exists>r. fst (validateAnswer ai a b u answers) = Inr r"
  by (auto simp: validateAnswer_def split: prod.splits sum.splits)

lemma generateWithFallback_unfold:
  "generateWithFallback ai prompt schema temp =
     (case attempt ai (mk_request PRIMARY_MODEL prompt schema temp) of
        Inr data \<Rightarrow> (Inr data, [GenerateContent (mk_request PRIMARY_MODEL prompt schema temp)])
      | Inl e \<Rightarrow>
          if \<not> isQuotaError e
          then (Inl (Some e), [GenerateContent (mk_request PRIMARY_MODEL prompt schema temp)])
          else (case attempt ai (mk_request FALLBACK_MODEL prompt schema temp) of
                  Inr data \<Rightarrow>
                    (Inr data,
                     [GenerateContent (mk_request PRIMARY_MODEL prompt schema temp),
                      ConsoleWarn PRIMARY_MODEL, Delay 1000,
                      GenerateContent (mk_request FALLBACK_MODEL prompt schema temp)])
                | Inl e' \<Rightarrow>
                    (Inl (Some e'),
                     [GenerateContent (mk_request PRIMARY_MODEL prompt schema temp),
                      ConsoleWarn PRIMARY_MODEL, Delay 1000,
                      GenerateContent (mk_request FALLBACK_MODEL prompt schema temp)]
                     @ (if isQuotaError e' then [ConsoleWarn FALLBACK_MODEL, Delay 1000]
                        else []))))"
  by (simp add: generateWithFallback_def Let_def split: sum.splits)

lemma generateWithFallback_fails:
  assumes "attempt ai (mk_request PRIMARY_MODEL p sch t) = Inl e1"
    and "\<not> isQuotaError e1 \<or> attempt ai (mk_request FALLBACK_MODEL p sch t) = Inl e2"
  shows "\<exists>thrown effs. generateWithFallback ai p sch t = (Inl thrown, effs)"
  using assms unfolding generateWithFallback_unfold by (auto split: sum.splits)

lemma validateAnswer_remote_failure:
  assumes "\<not> (answers \<noteq> [] \<and> list_ex (answerMatches (normalizeArabic userAnswer)) answers)"
    and "generateWithFallback ai (validationPrompt a b userAnswer) validationSchema (2 / 10)
           = (Inl thrown, effs)"
  shows "fst (validateAnswer ai a b userAnswer answers)
           = Inr \<lparr>isValid = False, reason = busy_reason, correctAnswer = None\<rparr>"
  using assms by (simp add: validateAnswer_def)

text \<open>
  C5: when the local tier finds no match and the request to the primary model fails,
  either with an error that is no rate limit or with a rate limit followed by a failure
  of the fallback model, \<open>validateAnswer\<close> returns (it does not throw) the answer
  \<open>isValid: false\<close> with the fixed busy reason.
\<close>

theorem validateAnswer_backend_failure:
  assumes "answers = [] \<or> \<not> (\<exists>ans\<in>set answers. answerMatches (normalizeArabic userAnswer) ans)"
    and "attempt ai (mk_request PRIMARY_MODEL (validationPrompt a b userAnswer)
                       validationSchema (2 / 10)) = Inl e1"
    and "\<not> isQuotaError e1
         \<or> attempt ai (mk_request FALLBACK_MODEL (validationPrompt a b userAnswer)
                         validationSchema (2 / 10)) = Inl e2"
  shows "fst (validateAnswer ai a b userAnswer answers)
           = Inr \<lparr>isValid = False, reason = busy_reason, correctAnswer = None\<rparr>"
proof -
  from assms(1)
  have "\<not> (answers \<noteq> [] \<and> list_ex (answerMatches (normalizeArabic userAnswer)) answers)"
    unfolding list_ex_iff by blast
  moreover from generateWithFallback_fails [OF assms(2,3)] obtain thrown effs where
    "generateWithFallback ai (validationPrompt a b userAnswer) validationSchema (2 / 10)
       = (Inl thrown, effs)"
    by blast
  ultimately show ?thesis
    by (rule validateAnswer_remote_failure)
qed

text \<open>
  C5 at a backend that answers both models with a rate-limit error, with no accepted
  answers.
\<close>

theorem validateAnswer_backend_failure_witness:
  "fst (validateAnswer rate_limited_backend (js ''Barcelona'') (js ''Milan'') (js ''Pele'') [])
     = Inr \<lparr>isValid = False, reason = busy_reason, correctAnswer = None\<rparr>"
proof -
  let ?e = "\<lparr>err_text = js ''ApiError: quota exceeded'', err_status = Some 429\<rparr>"
  have "attempt (rate_limited_backend :: ValidationResult backend) r = Inl ?e" for r
    by (simp add: attempt_def rate_limited_backend_def)
  then show ?thesis
    by (intro validateAnswer_backend_failure [where ?e1.0 = ?e and ?e2.0 = ?e]) simp_all
qed


lemma isQuotaError_status: "isQuotaError \<lparr>err_text = t, err_status = Some 429\<rparr>"
  by (simp add: isQuotaError_def)






text \<open>
  An answer that matches nothing locally goes to the backend, and what the backend says
  is returned.
\<close>

lemma no_local_match_Kaka:
  "\<not> list_ex (answerMatches (normalizeArabic (js ''Kaka''))) [js ''Ronaldo'', Ronaldinho_Gaucho]"
  by code_simp

lemma validateAnswer_remote_answer:
  assumes "\<not> (answers \<noteq> [] \<and> list_ex (answerMatches (normalizeArabic userAnswer)) answers)"
    and "generateWithFallback ai (validationPrompt a b userAnswer) validationSchema (2 / 10)
           = (Inr data, effs)"
  shows "fst (validateAnswer ai a b userAnswer answers)
           = Inr \<lparr>isValid = isValid data, reason = reason data,
                  correctAnswer = correctAnswer data\<rparr>"
  using assms by (auto simp: validateAnswer_def)

lemma generateWithFallback_answering:
  "generateWithFallback (answering_backend data) p schema t
     = (Inr data, [GenerateContent (mk_request PRIMARY_MODEL p schema t)])"
  by (simp add: generateWithFallback_def attempt_def answering_backend_def js_def)

lemma validateAnswer_Kaka:
  "fst (validateAnswer (answering_backend result) a b (js ''Kaka'')
         [js ''Ronaldo'', Ronaldinho_Gaucho])
     = Inr \<lparr>isValid = isValid result, reason = reason result,
            correctAnswer = correctAnswer result\<rparr>"
  by (rule validateAnswer_remote_answer [OF _ generateWithFallback_answering])
    (use no_local_match_Kaka in blast)

section \<open>Challenge generation\<close>

text \<open>\<open>generateChallenge\<close> throws exactly when its backend call throws.\<close>

lemma generateChallenge_failure_iff:
  "fst (generateChallenge ai rnd1 rnd2 uuid d excluded) = Inl thrown \<longleftrightarrow>
   fst (generateWithFallback ai
          (challengePrompt (pick rnd1 THEMES) (pick rnd2 STRUCTURES) (difficultyContext d)
             (join (js '', '') (slice_last 20 excluded)))
          challengeSchema (11 / 10)) = Inl thrown"
  by (auto simp: generateChallenge_def Let_def split: prod.splits sum.splits)

lemma generateChallenge_unreachable:
  "fst (generateChallenge unreachable_backend rnd1 rnd2 uuid d excluded)
     = Inl (Some \<lparr>err_text = js ''TypeError: fetch failed'', err_status = None\<rparr>)"
proof -
  have "\<not> isQuotaError \<lparr>err_text = js ''TypeError: fetch failed'', err_status = None\<rparr>"
    by code_simp
  then show ?thesis
    by (simp add: generateChallenge_def generateWithFallback_def attempt_def
        unreachable_backend_def Let_def)
qed

lemma requests_append: "requests (xs @ ys) = requests xs @ requests ys"
  by (induction xs rule: requests.induct) auto

lemma tryModels_requests:
  "tryModels ai prompt schema temp ms lastError = (res, effs) \<Longrightarrow> r \<in> set (requests effs)
     \<Longrightarrow> contents r = prompt"
proof (induction ms arbitrary: lastError res effs)
  case Nil
  then show ?case by simp
next
  case (Cons m ms)
  show ?case
  proof (cases "attempt ai (mk_request m prompt schema temp)")
    case (Inr data)
    with Cons.prems show ?thesis by (auto simp: mk_request_def)
  next
    case (Inl e)
    show ?thesis
    proof (cases "isQuotaError e")
      case False
      with Inl Cons.prems show ?thesis by (auto simp: mk_request_def)
    next
      case True
      obtain res' effs' where t: "tryModels ai prompt schema temp ms (Some e) = (res', effs')"
        by (cases "tryModels ai prompt schema temp ms (Some e)")
      with Inl True Cons.prems
      have "r = mk_request m prompt schema temp \<or> r \<in> set (requests effs')"
        by auto
      with Cons.IH [OF t] show ?thesis by (auto simp: mk_request_def)
    qed
  qed
qed

lemma generateWithFallback_first_request:
  "\<exists>rest. requests (snd (generateWithFallback ai prompt schema temp))
            = mk_request PRIMARY_MODEL prompt schema temp # rest"
  by (auto simp: generateWithFallback_def Let_def split: sum.splits prod.splits)

lemma generateChallenge_effects:
  "snd (generateChallenge ai rnd1 rnd2 uuid d excluded)
     = snd (generateWithFallback ai
              (challengePrompt (pick rnd1 THEMES) (pick rnd2 STRUCTURES) (difficultyContext d)
                 (join (js '', '') (slice_last 20 excluded)))
              challengeSchema (11 / 10))"
  by (auto simp: generateChallenge_def Let_def split: prod.splits sum.splits)

lemma slice_last_recent:
  "take (length xs - n) xs @ slice_last n xs = xs \<and> length (slice_last n xs) = min n (length xs)"
  by (auto simp: slice_last_def)

lemma sample_app_fields:
  "status (gameState sample_app) = PLAYING \<and> score (gameState sample_app) = 0
   \<and> timeLeft (gameState sample_app) = 60 \<and> difficulty (gameState sample_app) = MEDIUM
   \<and> seenEntities (gameState sample_app) = [js ''Barcelona'', js ''Milan'']
   \<and> currentChallenge (gameState sample_app) = Some sample_challenge"
  by (simp add: sample_app_def startGame_resolved_def startGame_begin_def initial_App_def
      sample_challenge_def TIME_LIMITS_def)

lemma slice_last_suffix: "length ys = n \<Longrightarrow> slice_last n (xs @ ys) = ys"
  by (simp add: slice_last_def)

lemma app_render [simp]: "app (render s) = app s"
  by (simp add: render_def split: option.splits)

lemma trim_empty_iff: "trim t = [] \<longleftrightarrow> (\<forall>c\<in>set t. isWhiteSpace c)"
proof
  assume "trim t = []"
  then have all: "\<forall>c\<in>set (dropWhile isWhiteSpace t). isWhiteSpace c"
    by (simp add: trim_def)
  have "dropWhile isWhiteSpace t = []"
  proof (rule ccontr)
    assume ne: "dropWhile isWhiteSpace t \<noteq> []"
    then have "\<not> isWhiteSpace (hd (dropWhile isWhiteSpace t))"
      by (rule hd_dropWhile)
    with all ne show False by simp
  qed
  then show "\<forall>c\<in>set t. isWhiteSpace c"
    by simp
next
  assume "\<forall>c\<in>set t. isWhiteSpace c"
  then show "trim t = []"
    by (auto simp: trim_def dest: set_dropWhileD)
qed

text \<open>
  Every request of a call of \<open>generateChallenge\<close> carries the prompt built from the
  exclusion list, and there is at least one.
\<close>

lemma generateChallenge_requests:
  "requests (snd (generateChallenge ai rnd1 rnd2 uuid d excluded)) \<noteq> []
   \<and> (\<forall>r\<in>set (requests (snd (generateChallenge ai rnd1 rnd2 uuid d excluded))).
        contents r
          = challengePrompt (pick rnd1 THEMES) (pick rnd2 STRUCTURES) (difficultyContext d)
              (join (js '', '') (slice_last 20 excluded)))"
proof
  obtain rest where "requests (snd (generateWithFallback ai
        (challengePrompt (pick rnd1 THEMES) (pick rnd2 STRUCTURES) (difficultyContext d)
           (join (js '', '') (slice_last 20 excluded)))
        challengeSchema (11 / 10)))
      = mk_request PRIMARY_MODEL
          (challengePrompt (pick rnd1 THEMES) (pick rnd2 STRUCTURES) (difficultyContext d)
             (join (js '', '') (slice_last 20 excluded)))
          challengeSchema (11 / 10) # rest"
    using generateWithFallback_first_request by blast
  then show "requests (snd (generateChallenge ai rnd1 rnd2 uuid d excluded)) \<noteq> []"
    by (simp only: generateChallenge_effects) simp
next
  show "\<forall>r\<in>set (requests (snd (generateChallenge ai rnd1 rnd2 uuid d excluded))).
        contents r
          = challengePrompt (pick rnd1 THEMES) (pick rnd2 STRUCTURES) (difficultyContext d)
              (join (js '', '') (slice_last 20 excluded))"
  proof
    fix r
    assume "r \<in> set (requests (snd (generateChallenge ai rnd1 rnd2 uuid d excluded)))"
    then have "r \<in> set (requests (snd (tryModels ai
        (challengePrompt (pick rnd1 THEMES) (pick rnd2 STRUCTURES) (difficultyContext d)
           (join (js '', '') (slice_last 20 excluded)))
        challengeSchema (11 / 10) [PRIMARY_MODEL, FALLBACK_MODEL] None)))"
      by (simp only: generateChallenge_effects generateWithFallback_def)
    then show "contents r
          = challengePrompt (pick rnd1 THEMES) (pick rnd2 STRUCTURES) (difficultyContext d)
              (join (js '', '') (slice_last 20 excluded))"
      by (rule tryModels_requests [OF prod.collapse [symmetric]])
  qed
qed

text \<open>The prompt has the exclusions in its third constraint, between square brackets.\<close>

lemma challengePrompt_exclusions:
  "\<exists>pre post. challengePrompt theme structure context exclusions
      = pre @ js ''3. Exclude: ['' @ exclusions @ js ''].'' @ post"
proof -
  have "js ''    3. Exclude: ['' = js ''    '' @ js ''3. Exclude: [''"
    by (simp add: js_def)
  then show ?thesis
    unfolding challengePrompt_def
    by (metis append.assoc)
qed

section \<open>The running application: reachable states\<close>

subsection \<open>Runs of events\<close>

lemma generateChallenge_answering:
  "fst (generateChallenge (answering_backend data) rnd1 rnd2 uuid d excluded)
     = Inr \<lparr>id' = uuid,
            cardA = \<lparr>name = name (data_cardA data), type = type (data_cardA data),
                     description = None, imageUrl = imageUrl (data_cardA data),
                     color = color (data_cardA data)\<rparr>,
            cardB = \<lparr>name = name (data_cardB data), type = type (data_cardB data),
                     description = None, imageUrl = imageUrl (data_cardB data),
                     color = color (data_cardB data)\<rparr>,
            possibleAnswers = Some (data_possibleSolutions data)\<rparr>"
  by (simp add: generateChallenge_def generateWithFallback_def attempt_def
      answering_backend_def Let_def js_def)


lemma run_reachable:
  "reachable s \<Longrightarrow> (case run es s of None \<Rightarrow> True | Some s' \<Rightarrow> reachable s')"
proof (induction es arbitrary: s)
  case Nil
  then show ?case by simp
next
  case (Cons e es)
  show ?case
  proof (cases "step e s")
    case None
    then show ?thesis by simp
  next
    case (Some s')
    with Cons.prems have "reachable s'" by (auto intro: reachable_step)
    from Cons.IH [OF this] Some show ?thesis by simp
  qed
qed

lemmas system_eval =
  step.simps run.simps initial_System_def initial_App_def render_def update_app_def await_def
  settle_def on_instance_def handleSubmit_def handleSubmit_result_def handleSubmit_timeout_def
  handleSkip_def generation_settled_def validation_settled_def timeout_fired_def
  startGame_begin_def startGame_resolved_def startGame_rejected_def
  handleNextRound_begin_def handleNextRound_resolved_def handleNextRound_rejected_def
  resetGame_def setDifficulty_def tick_def timerRuns_def TIME_LIMITS_def
  initial_Screen_def no_feedback_def generateChallenge_answering sample_data_def
  validateAnswer_Kaka accepting_result_def

lemma skip_eval:
  "(case run skip_trace initial_System of
      None \<Rightarrow> False
    | Some s \<Rightarrow> status (gameState (app s)) = LOADING_CHALLENGE
               \<and> currentChallenge (gameState (app s)) \<noteq> None)"
  by (simp add: skip_trace_def system_eval)

lemma run_append:
  "run (es @ fs) s = (case run es s of None \<Rightarrow> None | Some s' \<Rightarrow> run fs s')"
  by (induction es arbitrary: s) (auto split: option.splits)

text \<open>A clock that runs down from \<open>n\<close> seconds ends the game.\<close>

lemma run_ticks:
  assumes "status (gameState (app s)) = PLAYING"
    and "currentChallenge (gameState (app s)) \<noteq> None"
    and "screen s \<noteq> None"
    and "timeLeft (gameState (app s)) = int n" and "0 < n"
  shows "run (ticks n) s
           = Some (s\<lparr>app := (app s)\<lparr>gameState := (gameState (app s))\<lparr>timeLeft := 0,
                                                       status := GAME_OVER\<rparr>\<rparr>,
                    screen := None\<rparr>)"
  using assms
proof (induction n arbitrary: s)
  case 0
  then show ?case by simp
next
  case (Suc n)
  show ?case
  proof (cases n)
    case 0
    with Suc.prems show ?thesis
      by (simp add: ticks_def timerRuns_def tick_def render_def update_app_def)
  next
    case (Suc m)
    let ?s' = "s\<lparr>app := (app s)\<lparr>gameState := (gameState (app s))\<lparr>timeLeft := int n\<rparr>\<rparr>\<rparr>"
    from Suc.prems Suc have st: "step Tick s = Some ?s'"
      by (auto simp: timerRuns_def tick_def render_def update_app_def)
    from Suc.prems Suc have "run (ticks n) ?s'
        = Some (?s'\<lparr>app := (app ?s')\<lparr>gameState := (gameState (app ?s'))\<lparr>timeLeft := 0,
                                                       status := GAME_OVER\<rparr>\<rparr>,
                    screen := None\<rparr>)"
      by (intro Suc.IH) auto
    with st show ?thesis
      by (simp add: ticks_def)
  qed
qed

lemma trim_Kaka: "trim (js ''Kaka'') \<noteq> []"
  by (simp add: js_def trim_def isWhiteSpace_def)

lemma stale_eval:
  "(case run stale_response_trace initial_System of
      None \<Rightarrow> False
    | Some s \<Rightarrow> status (gameState (app s)) = PLAYING \<and> timeLeft (gameState (app s)) = 0)"
  by (simp add: stale_response_trace_def run_append run_ticks system_eval trim_Kaka)

subsection \<open>What one event changes\<close>

lemma screen_render: "screen (render s) \<noteq> None \<longleftrightarrow>
    status (gameState (app s)) = PLAYING \<and> currentChallenge (gameState (app s)) \<noteq> None"
  by (simp add: render_def split: option.splits)

lemma app_await [simp]: "app (await p s) = app s"
  by (simp add: await_def)

lemma app_settle [simp]: "app (settle k s) = app s"
  by (simp add: settle_def)

lemma app_on_instance [simp]: "app (on_instance i f s) = app s"
  by (simp add: on_instance_def split: option.splits)

lemma app_update_app [simp]: "app (update_app f s) = f (app s)"
  by (simp add: update_app_def)

lemma screen_await [simp]: "screen (await p s) = screen s"
  by (simp add: await_def)

lemma screen_settle [simp]: "screen (settle k s) = screen s"
  by (simp add: settle_def)

lemma screen_update_app [simp]: "screen (update_app f s) = screen s"
  by (simp add: update_app_def)

lemma screen_on_instance [simp]: "screen (on_instance i f s) = None \<longleftrightarrow> screen s = None"
  by (auto simp: on_instance_def split: option.splits)

lemma pending_update_app [simp]: "pending (update_app f s) = pending s"
  by (simp add: update_app_def)

lemma mounts_update_app [simp]: "mounts (update_app f s) = mounts s"
  by (simp add: update_app_def)

lemma pending_on_instance [simp]: "pending (on_instance i f s) = pending s"
  by (simp add: on_instance_def split: option.splits)

lemma mounts_on_instance [simp]: "mounts (on_instance i f s) = mounts s"
  by (simp add: on_instance_def split: option.splits)

lemma screen_on_instance_eq:
  "screen (on_instance i f s)
     = (case screen s of None \<Rightarrow> None
        | Some (j, sc) \<Rightarrow> Some (j, if j = i then f sc else sc))"
  by (simp add: on_instance_def split: option.splits)

lemma pending_await [simp]: "pending (await p s) = pending s @ [p]"
  by (simp add: await_def)

lemma mounts_await [simp]: "mounts (await p s) = mounts s"
  by (simp add: await_def)

lemma mounts_settle [simp]: "mounts (settle k s) = mounts s"
  by (simp add: settle_def)

lemma TIME_LIMITS_pos: "0 < TIME_LIMITS d"
  by (cases d) (simp_all add: TIME_LIMITS_def)

lemma gameState_handleSubmit: "gameState (app (handleSubmit s)) = gameState (app s)"
  by (simp add: handleSubmit_def split: option.splits prod.splits)

lemma screen_handleSubmit: "screen (handleSubmit s) = None \<longleftrightarrow> screen s = None"
  by (cases "screen s"; cases "currentChallenge (gameState (app s))")
    (auto simp: handleSubmit_def on_instance_def)

lemma gameState_handleSubmit_result:
  "gameState (app (handleSubmit_result i rendered result s)) = gameState (app s)"
  by (simp add: handleSubmit_result_def)

lemma gameState_handleSubmit_timeout:
  "gameState (app (handleSubmit_timeout i rendered s))
     = gameState (handleNextRound_begin 10 (app s))"
  by (simp add: handleSubmit_timeout_def handleNextRound_begin_def)

lemma app_handleSkip:
  "screen s \<noteq> None \<Longrightarrow> app (handleSkip s) = handleNextRound_begin 0 (app s)"
  by (auto simp: handleSkip_def split: option.splits)

text \<open>How one event changes the session state.\<close>

lemma step_gameState:
  assumes "step e s = Some s'"
  shows "case e of
      Tick \<Rightarrow> timerRuns (gameState (app s)) \<and> gameState (app s') = tick (gameState (app s))
    | Click_start \<Rightarrow> gameState (app s') = gameState (startGame_begin (app s))
    | Click_menu \<Rightarrow> gameState (app s') = gameState (resetGame (app s))
    | Click_difficulty level \<Rightarrow> gameState (app s') = gameState (setDifficulty level (app s))
    | Change_input t \<Rightarrow> gameState (app s') = gameState (app s)
    | Submit \<Rightarrow> gameState (app s') = gameState (app s)
    | Click_skip \<Rightarrow> screen s \<noteq> None
          \<and> gameState (app s') = gameState (handleNextRound_begin 0 (app s))
    | Generation_settles k ai rnd1 rnd2 uuid \<Rightarrow>
          (\<exists>challenge. gameState (app s') = gameState (startGame_resolved challenge (app s))
                     \<or> gameState (app s') = gameState (handleNextRound_resolved challenge (app s)))
          \<or> gameState (app s') = gameState (startGame_rejected (app s))
          \<or> gameState (app s') = gameState (handleNextRound_rejected (app s))
    | Validation_settles k ai \<Rightarrow> gameState (app s') = gameState (app s)
    | Timeout_fires k \<Rightarrow> gameState (app s') = gameState (handleNextRound_begin 10 (app s))"
proof (cases e)
  case Tick
  with assms show ?thesis by (auto split: if_splits)
next
  case Click_start
  with assms show ?thesis by (auto split: if_splits)
next
  case Click_menu
  with assms show ?thesis by (auto split: if_splits)
next
  case (Click_difficulty level)
  with assms show ?thesis by (auto split: if_splits)
next
  case (Change_input t)
  with assms show ?thesis by (auto split: option.splits if_splits)
next
  case Submit
  with assms show ?thesis by (auto simp: gameState_handleSubmit split: option.splits)
next
  case Click_skip
  with assms show ?thesis by (auto simp: app_handleSkip split: option.splits if_splits)
next
  case (Generation_settles k ai rnd1 rnd2 uuid)
  with assms obtain x where k: "k < length (pending s)"
    and x: "generation_settled (pending s ! k) ai rnd1 rnd2 uuid (settle k s) = Some x"
    and s': "s' = render x"
    by (auto split: if_splits)
  from x have "(\<exists>challenge. app x = startGame_resolved challenge (app s)
                     \<or> app x = handleNextRound_resolved challenge (app s))
          \<or> app x = startGame_rejected (app s) \<or> app x = handleNextRound_rejected (app s)"
    unfolding generation_settled_def
    by (cases "pending s ! k") (auto split: sum.splits)
  with s' Generation_settles show ?thesis by auto
next
  case (Validation_settles k ai)
  with assms obtain x where
    x: "validation_settled (pending s ! k) ai (settle k s) = Some x" and s': "s' = render x"
    by (auto split: if_splits)
  from x have "gameState (app x) = gameState (app s)"
    unfolding validation_settled_def
    by (cases "pending s ! k") (auto simp: gameState_handleSubmit_result split: sum.splits)
  with s' Validation_settles show ?thesis by auto
next
  case (Timeout_fires k)
  with assms obtain x where
    x: "timeout_fired (pending s ! k) (settle k s) = Some x" and s': "s' = render x"
    by (auto split: if_splits)
  from x have "gameState (app x) = gameState (handleNextRound_begin 10 (app s))"
    unfolding timeout_fired_def
    by (cases "pending s ! k") (auto simp: gameState_handleSubmit_timeout)
  with s' Timeout_fires show ?thesis by auto
qed

text \<open>The game screen is mounted only while the status is PLAYING.\<close>

lemma step_screen:
  assumes "step e s = Some s'"
    and "screen s \<noteq> None \<longrightarrow> status (gameState (app s)) = PLAYING"
  shows "screen s' \<noteq> None \<longrightarrow> status (gameState (app s')) = PLAYING"
proof (cases "e = Submit \<or> (\<exists>t. e = Change_input t)")
  case True
  with assms show ?thesis
    by (auto simp: gameState_handleSubmit screen_handleSubmit split: option.splits if_splits)
next
  case False
  with assms obtain x where "s' = render x"
    by (cases e) (auto split: if_splits option.splits)
  then show ?thesis
    using screen_render [of x] by simp
qed

subsection \<open>Invariants of the reachable states\<close>

lemma step_challenge_invariant:
  assumes "step e s = Some s'"
    and "(status (gameState (app s)) = PLAYING \<longrightarrow> currentChallenge (gameState (app s)) \<noteq> None)
         \<and> status (gameState (app s)) \<noteq> VALIDATING"
  shows "(status (gameState (app s')) = PLAYING \<longrightarrow> currentChallenge (gameState (app s')) \<noteq> None)
         \<and> status (gameState (app s')) \<noteq> VALIDATING"
  using step_gameState [OF assms(1)] assms(2)
  by (cases e)
    (auto simp: tick_def startGame_begin_def resetGame_def setDifficulty_def
      handleNextRound_begin_def startGame_resolved_def handleNextRound_resolved_def
      startGame_rejected_def handleNextRound_rejected_def)

lemma step_keeps_challenge:
  assumes "step e s = Some s'" and "currentChallenge (gameState (app s)) \<noteq> None"
  shows "currentChallenge (gameState (app s')) \<noteq> None"
  using step_gameState [OF assms(1)] assms(2)
  by (cases e)
    (auto simp: tick_def startGame_begin_def resetGame_def setDifficulty_def
      handleNextRound_begin_def startGame_resolved_def handleNextRound_resolved_def
      startGame_rejected_def handleNextRound_rejected_def)

lemma reachable_challenge_invariant:
  "reachable s \<Longrightarrow>
     (status (gameState (app s)) = PLAYING \<longrightarrow> currentChallenge (gameState (app s)) \<noteq> None)
     \<and> status (gameState (app s)) \<noteq> VALIDATING"
proof (induction rule: reachable.induct)
  case reachable_initial
  show ?case by (simp add: initial_System_def initial_App_def)
next
  case (reachable_step s e s')
  from step_challenge_invariant [OF reachable_step.hyps(2) reachable_step.IH]
  show ?case .
qed

lemma step_timer_invariant:
  assumes "step e s = Some s'" and "\<not> stale e s"
    and "0 \<le> timeLeft (gameState (app s))
         \<and> (status (gameState (app s)) = PLAYING \<or> status (gameState (app s)) = LOADING_CHALLENGE
              \<longrightarrow> 0 < timeLeft (gameState (app s)))
         \<and> status (gameState (app s)) \<noteq> VALIDATING
         \<and> (screen s \<noteq> None \<longrightarrow> status (gameState (app s)) = PLAYING)"
  shows "0 \<le> timeLeft (gameState (app s'))
         \<and> (status (gameState (app s')) = PLAYING \<or> status (gameState (app s')) = LOADING_CHALLENGE
              \<longrightarrow> 0 < timeLeft (gameState (app s')))
         \<and> status (gameState (app s')) \<noteq> VALIDATING
         \<and> (screen s' \<noteq> None \<longrightarrow> status (gameState (app s')) = PLAYING)"
proof -
  have scr: "screen s' \<noteq> None \<longrightarrow> status (gameState (app s')) = PLAYING"
    using step_screen [OF assms(1)] assms(3) by blast
  have "0 \<le> timeLeft (gameState (app s'))
         \<and> (status (gameState (app s')) = PLAYING \<or> status (gameState (app s')) = LOADING_CHALLENGE
              \<longrightarrow> 0 < timeLeft (gameState (app s')))
         \<and> status (gameState (app s')) \<noteq> VALIDATING"
    using step_gameState [OF assms(1)] assms(2,3) TIME_LIMITS_pos [of "difficulty (gameState (app s))"]
    by (cases e; cases "status (gameState (app s))")
      (auto simp: stale_def tick_def timerRuns_def startGame_begin_def resetGame_def
        setDifficulty_def handleNextRound_begin_def startGame_resolved_def
        handleNextRound_resolved_def startGame_rejected_def handleNextRound_rejected_def
        split: if_splits)
  with scr show ?thesis by blast
qed

lemma fresh_timer_invariant:
  "reachable_fresh s \<Longrightarrow>
     0 \<le> timeLeft (gameState (app s))
     \<and> (status (gameState (app s)) = PLAYING \<or> status (gameState (app s)) = LOADING_CHALLENGE
          \<longrightarrow> 0 < timeLeft (gameState (app s)))
     \<and> status (gameState (app s)) \<noteq> VALIDATING
     \<and> (screen s \<noteq> None \<longrightarrow> status (gameState (app s)) = PLAYING)"
proof (induction rule: reachable_fresh.induct)
  case fresh_initial
  show ?case by (simp add: initial_System_def initial_App_def TIME_LIMITS_def)
next
  case (fresh_step s e s')
  from step_timer_invariant [OF fresh_step.hyps(2) fresh_step.hyps(3) fresh_step.IH]
  show ?case .
qed

subsection \<open>Uncovered runs are serialised\<close>

lemma filter_remove_nth:
  assumes "k < length xs"
  shows "length (filter P (take k xs @ drop (Suc k) xs))
           = length (filter P xs) - (if P (xs ! k) then 1 else 0)"
proof -
  have "xs = take k xs @ xs ! k # drop (Suc k) xs"
    using assms by (rule id_take_nth_drop)
  then have "length (filter P xs)
      = length (filter P (take k xs @ xs ! k # drop (Suc k) xs))"
    by simp
  then show ?thesis by simp
qed

lemma pending_render [simp]: "pending (render s) = pending s"
  by (simp add: render_def split: option.splits)

lemma generating_render [simp]: "generating (render s) = generating s"
  by (simp add: generating_def)

lemma submitting_render [simp]: "submitting (render s) = submitting s"
  by (simp add: submitting_def)

lemma generating_update_app [simp]: "generating (update_app f s) = generating s"
  by (simp add: generating_def)

lemma submitting_update_app [simp]: "submitting (update_app f s) = submitting s"
  by (simp add: submitting_def)

lemma generating_on_instance [simp]: "generating (on_instance i f s) = generating s"
  by (simp add: generating_def)

lemma submitting_on_instance [simp]: "submitting (on_instance i f s) = submitting s"
  by (simp add: submitting_def)

lemma generating_await:
  "generating (await p s) = generating s + (if submitted_by p = None then 1 else 0)"
  by (simp add: generating_def)

lemma submitting_await:
  "submitting (await p s) = submitting s + (if submitted_by p = None then 0 else 1)"
  by (simp add: submitting_def)

lemma generating_settle:
  assumes "k < length (pending s)"
  shows "generating (settle k s)
       = generating s - (if submitted_by (pending s ! k) = None then 1 else 0)"
proof -
  have "pending (settle k s) = take k (pending s) @ drop (Suc k) (pending s)"
    by (simp add: settle_def)
  then show ?thesis
    unfolding generating_def by (simp only: filter_remove_nth [OF assms])
qed

lemma submitting_settle:
  assumes "k < length (pending s)"
  shows "submitting (settle k s)
       = submitting s - (if submitted_by (pending s ! k) = None then 0 else 1)"
proof -
  have "pending (settle k s) = take k (pending s) @ drop (Suc k) (pending s)"
    by (simp add: settle_def)
  then show ?thesis
    unfolding submitting_def by (simp only: filter_remove_nth [OF assms]) simp
qed

lemma generating_pos:
  "k < length (pending s) \<Longrightarrow> submitted_by (pending s ! k) = None \<Longrightarrow> 0 < generating s"
  by (auto simp: generating_def filter_empty_conv intro: nth_mem)

lemma submitting_pos:
  "k < length (pending s) \<Longrightarrow> submitted_by (pending s ! k) = Some j \<Longrightarrow> 0 < submitting s"
  by (auto simp: submitting_def filter_empty_conv intro!: bexI [of _ "pending s ! k"])

lemma serial_render [simp]: "serial (render s) = serial s"
  by (simp add: serial_def)

lemma serial_handleSubmit:
  assumes "serial s" and "\<not> showLoading (app s)"
  shows "serial (handleSubmit s)"
proof (cases "screen s")
  case None
  with assms show ?thesis by (simp add: handleSubmit_def)
next
  case (Some x)
  obtain i sc where x: "x = (i, sc)" by (cases x)
  show ?thesis
  proof (cases "currentChallenge (gameState (app s))")
    case None
    with Some x assms show ?thesis by (simp add: handleSubmit_def)
  next
    case (Some challenge)
    with \<open>screen s = Some x\<close> x assms show ?thesis
      by (auto simp: handleSubmit_def serial_def showLoading_def generating_await
          submitting_await)
  qed
qed

lemma serial_handleSkip:
  assumes "serial s" and "\<not> showLoading (app s)" and "screen s \<noteq> None"
  shows "serial (handleSkip s)"
  using assms
  by (auto simp: handleSkip_def serial_def showLoading_def generating_await submitting_await
      handleNextRound_begin_def split: option.splits)

lemma serial_result:
  assumes "k < length (pending s)"
    and "pending s ! k = Validate_await j challenge typed rendered"
    and "serial s"
  shows "serial (handleSubmit_result j rendered result (settle k s))"
proof -
  have "0 < submitting s"
    using assms(1,2) by (intro submitting_pos [of k s j]) simp_all
  with assms show ?thesis
    by (auto simp: handleSubmit_result_def serial_def generating_await submitting_await
        generating_settle submitting_settle split: if_splits)
qed

lemma serial_timeout:
  assumes "k < length (pending s)"
    and "pending s ! k = NextRound_timeout j rendered"
    and "serial s"
  shows "serial (handleSubmit_timeout j rendered (settle k s))"
proof -
  have "0 < submitting s"
    using assms(1,2) by (intro submitting_pos [of k s j]) simp_all
  with assms show ?thesis
    by (auto simp: handleSubmit_timeout_def serial_def generating_await submitting_await
        generating_settle submitting_settle handleNextRound_begin_def split: if_splits)
qed

lemma serial_generation:
  assumes "k < length (pending s)"
    and "generation_settled (pending s ! k) ai rnd1 rnd2 uuid (settle k s) = Some x"
    and "serial s"
  shows "serial x \<and> status (gameState (app s)) = LOADING_CHALLENGE"
proof -
  from assms(2) have n: "submitted_by (pending s ! k) = None"
    unfolding generation_settled_def by (cases "pending s ! k") auto
  with assms(1) have "0 < generating s" by (rule generating_pos)
  with assms(3) have l: "status (gameState (app s)) = LOADING_CHALLENGE"
    and g: "generating s = 1" and v: "\<not> isValidating (app s)" and sb: "submitting s = 0"
    by (auto simp: serial_def split: if_splits)
  from assms(2) have "(\<exists>f. x = update_app f (settle k s))
      \<and> status (gameState (app x)) \<noteq> LOADING_CHALLENGE
      \<and> isValidating (app x) = isValidating (app s)"
    unfolding generation_settled_def
    by (cases "pending s ! k")
      (auto simp: startGame_resolved_def startGame_rejected_def handleNextRound_resolved_def
        handleNextRound_rejected_def split: sum.splits)
  with n g v sb assms(1) have "serial x"
    by (auto simp: serial_def generating_settle submitting_settle)
  with l show ?thesis by simp
qed

lemma step_serial:
  assumes "step e s = Some s'" and "user_event e \<longrightarrow> \<not> showLoading (app s)"
    and "serial s"
  shows "serial s' \<and> \<not> stale e s"
proof (cases e)
  case Tick
  with assms show ?thesis
    by (auto simp: serial_def stale_def timerRuns_def tick_def split: if_splits)
next
  case Click_start
  with assms show ?thesis
    by (auto simp: serial_def stale_def showLoading_def startGame_begin_def generating_await
        submitting_await split: if_splits)
next
  case Click_menu
  with assms show ?thesis
    by (auto simp: serial_def stale_def showLoading_def resetGame_def split: if_splits)
next
  case (Click_difficulty level)
  with assms show ?thesis
    by (auto simp: serial_def stale_def showLoading_def setDifficulty_def split: if_splits)
next
  case (Change_input t)
  with assms show ?thesis
    by (auto simp: serial_def stale_def generating_def submitting_def
        split: option.splits if_splits)
next
  case Submit
  with assms show ?thesis
    by (auto simp: stale_def split: option.splits intro: serial_handleSubmit)
next
  case Click_skip
  with assms show ?thesis
    by (auto simp: stale_def split: option.splits if_splits intro!: serial_handleSkip)
next
  case (Generation_settles k ai rnd1 rnd2 uuid)
  with assms obtain x where k: "k < length (pending s)"
    and x: "generation_settled (pending s ! k) ai rnd1 rnd2 uuid (settle k s) = Some x"
    and s': "s' = render x"
    by (auto split: if_splits)
  from serial_generation [OF k x assms(3)] s' Generation_settles show ?thesis
    by (simp add: stale_def)
next
  case (Validation_settles k ai)
  with assms obtain x where k: "k < length (pending s)"
    and x: "validation_settled (pending s ! k) ai (settle k s) = Some x"
    and s': "s' = render x"
    by (auto split: if_splits)
  from x obtain j challenge typed rendered where
    p: "pending s ! k = Validate_await j challenge typed rendered"
    unfolding validation_settled_def by (cases "pending s ! k") auto
  obtain result where "fst (validateAnswer ai (name (cardA challenge)) (name (cardB challenge))
      typed (case possibleAnswers challenge of None \<Rightarrow> [] | Some answers \<Rightarrow> answers)) = Inr result"
    using validateAnswer_never_throws by blast
  with x p have "x = handleSubmit_result j rendered result (settle k s)"
    by (simp add: validation_settled_def)
  with serial_result [OF k p assms(3)] s' Validation_settles show ?thesis
    by (simp add: stale_def)
next
  case (Timeout_fires k)
  with assms obtain x where k: "k < length (pending s)"
    and x: "timeout_fired (pending s ! k) (settle k s) = Some x"
    and s': "s' = render x"
    by (auto split: if_splits)
  from x obtain j rendered where p: "pending s ! k = NextRound_timeout j rendered"
    and "x = handleSubmit_timeout j rendered (settle k s)"
    unfolding timeout_fired_def by (cases "pending s ! k") auto
  with serial_timeout [OF k p assms(3)] s' Timeout_fires show ?thesis
    by (simp add: stale_def)
qed

lemma uncovered_serial_fresh: "reachable_uncovered s \<Longrightarrow> serial s \<and> reachable_fresh s"
proof (induction rule: reachable_uncovered.induct)
  case uncovered_initial
  have "serial initial_System"
    by (simp add: serial_def generating_def submitting_def initial_System_def initial_App_def)
  with fresh_initial show ?case by simp
next
  case (uncovered_step s e s')
  from step_serial [OF uncovered_step.hyps(2,3)] uncovered_step.IH
  show ?case by (auto intro: fresh_step [OF _ uncovered_step.hyps(2)])
qed

subsection \<open>The timer and the current challenge\<close>

lemma first_round_run:
  "run [Click_start, Generation_settles 0 (answering_backend sample_data) 0 0 (js ''c1'')]
     initial_System = Some first_round_System"
  by (simp add: system_eval first_round_System_def sample_app_def sample_challenge_def)

lemma first_round_reachable: "reachable first_round_System"
  using run_reachable [OF reachable_initial,
      of "[Click_start, Generation_settles 0 (answering_backend sample_data) 0 0 (js ''c1'')]"]
  by (simp only: first_round_run option.case)

lemma first_round_fresh: "reachable_fresh first_round_System"
proof -
  obtain s1 where 1: "step Click_start initial_System = Some s1"
    and 2: "step (Generation_settles 0 (answering_backend sample_data) 0 0 (js ''c1'')) s1
              = Some first_round_System"
    using first_round_run by (auto split: option.splits)
  have f1: "reachable_fresh s1"
    using fresh_initial 1 by (rule fresh_step) (simp add: stale_def)
  from 1 have "status (gameState (app s1)) = LOADING_CHALLENGE"
    by (auto simp: startGame_begin_def split: if_splits)
  then have "\<not> stale (Generation_settles 0 (answering_backend sample_data) 0 0 (js ''c1'')) s1"
    by (simp add: stale_def)
  with f1 2 show ?thesis by (rule fresh_step)
qed

lemma first_round_uncovered: "reachable_uncovered first_round_System"
proof -
  obtain s1 where 1: "step Click_start initial_System = Some s1"
    and 2: "step (Generation_settles 0 (answering_backend sample_data) 0 0 (js ''c1'')) s1
              = Some first_round_System"
    using first_round_run by (auto split: option.splits)
  have "\<not> showLoading (app initial_System)"
    by (simp add: showLoading_def initial_System_def initial_App_def)
  then have "user_event Click_start \<longrightarrow> \<not> showLoading (app initial_System)"
    by simp
  with uncovered_initial 1 have "reachable_uncovered s1"
    by (rule uncovered_step)
  from this 2 show ?thesis
    by (rule uncovered_step) simp
qed

text \<open>
  C1, amended: while the interval is set up (status PLAYING, time left positive) a tick
  takes exactly 1 from the time left, and the tick from 1 sets the time left to 0 and the
  status to GAME_OVER in the same update, so a tick never leaves PLAYING with no time
  left. No tick happens while the status is not PLAYING, in particular after GAME_OVER.
  In every state reached without a stale generation response, PLAYING has time left; so
  it has in every state of a run in which the player acts only while the loading overlay
  is not shown.
\<close>

theorem timer_countdown:
  "(timerRuns gs \<longrightarrow>
      timeLeft (tick gs) = timeLeft gs - 1
      \<and> (if timeLeft gs = 1 then status (tick gs) = GAME_OVER
          else status (tick gs) = PLAYING \<and> 0 < timeLeft (tick gs)))
   \<and> (step Tick s = Some s' \<longrightarrow>
        timerRuns (gameState (app s)) \<and> gameState (app s') = tick (gameState (app s)))
   \<and> (status (gameState (app s)) \<noteq> PLAYING \<longrightarrow> step Tick s = None)
   \<and> (reachable_fresh t \<longrightarrow> status (gameState (app t)) = PLAYING
        \<longrightarrow> 0 < timeLeft (gameState (app t)))
   \<and> (reachable_uncovered u \<longrightarrow> status (gameState (app u)) = PLAYING
        \<longrightarrow> 0 < timeLeft (gameState (app u)))"
proof -
  have 1: "timerRuns gs \<longrightarrow>
      timeLeft (tick gs) = timeLeft gs - 1
      \<and> (if timeLeft gs = 1 then status (tick gs) = GAME_OVER
          else status (tick gs) = PLAYING \<and> 0 < timeLeft (tick gs))"
    by (auto simp: timerRuns_def tick_def)
  have 2: "step Tick s = Some s' \<longrightarrow>
        timerRuns (gameState (app s)) \<and> gameState (app s') = tick (gameState (app s))"
    using step_gameState [of Tick s s'] by auto
  have 3: "status (gameState (app s)) \<noteq> PLAYING \<longrightarrow> step Tick s = None"
    by (simp add: timerRuns_def)
  have 4: "reachable_fresh t \<longrightarrow> status (gameState (app t)) = PLAYING
        \<longrightarrow> 0 < timeLeft (gameState (app t))"
    using fresh_timer_invariant [of t] by blast
  have 5: "reachable_uncovered u \<longrightarrow> status (gameState (app u)) = PLAYING
        \<longrightarrow> 0 < timeLeft (gameState (app u))"
    using uncovered_serial_fresh [of u] fresh_timer_invariant [of u] by blast
  from 1 2 3 4 5 show ?thesis by blast
qed

text \<open>
  The amended C1 at the session after the first challenge (60 s left), at the initial
  state (IDLE), and at the running application after the first challenge.
\<close>

theorem timer_countdown_witness:
  "timerRuns (gameState sample_app)
   \<and> timeLeft (tick (gameState sample_app)) = 59
   \<and> status (tick (gameState sample_app)) = PLAYING
   \<and> step Tick initial_System = None
   \<and> reachable_fresh first_round_System
   \<and> reachable_uncovered first_round_System
   \<and> status (gameState (app first_round_System)) = PLAYING
   \<and> 0 < timeLeft (gameState (app first_round_System))"
proof -
  have a: "timerRuns (gameState sample_app)"
    by (simp add: timerRuns_def sample_app_fields)
  have b: "status (gameState (app initial_System)) \<noteq> PLAYING"
    by (simp add: initial_System_def initial_App_def)
  have c: "status (gameState (app first_round_System)) = PLAYING"
    by (simp add: first_round_System_def sample_app_fields)
  show ?thesis
    using timer_countdown [of "gameState sample_app" initial_System _ first_round_System
        first_round_System]
      a b c first_round_fresh first_round_uncovered
    by (simp add: sample_app_fields)
qed

text \<open>
  C1, as stated, fails: a state with status PLAYING and no time left is reachable. A
  generation request that is still outstanding when the clock of a later game runs out
  sets the status back to PLAYING when it arrives, and leaves the time left at 0.
\<close>

theorem playing_with_no_time_left:
  "(case run stale_response_trace initial_System of
      None \<Rightarrow> False
    | Some s \<Rightarrow> reachable s \<and> status (gameState (app s)) = PLAYING
               \<and> timeLeft (gameState (app s)) = 0)"
  using run_reachable [OF reachable_initial, of stale_response_trace] stale_eval
  by (auto split: option.splits)

text \<open>
  C2, amended: in every reachable state, PLAYING implies that the current challenge is
  present, and the status is never VALIDATING. No event clears the current challenge:
  once present it stays present in every later status.
\<close>

theorem challenge_presence:
  assumes "reachable s"
  shows "(status (gameState (app s)) = PLAYING \<longrightarrow> currentChallenge (gameState (app s)) \<noteq> None)
     \<and> status (gameState (app s)) \<noteq> VALIDATING
     \<and> (\<forall>e s'. step e s = Some s' \<longrightarrow> currentChallenge (gameState (app s)) \<noteq> None
            \<longrightarrow> currentChallenge (gameState (app s')) \<noteq> None)"
  using reachable_challenge_invariant [OF assms] step_keeps_challenge by blast

text \<open>
  The amended C2 at the running application after the first challenge.
\<close>

theorem challenge_presence_witness:
  "reachable first_round_System
   \<and> status (gameState (app first_round_System)) = PLAYING
   \<and> currentChallenge (gameState (app first_round_System)) \<noteq> None"
  using challenge_presence [OF first_round_reachable] first_round_reachable
  by (simp add: first_round_System_def sample_app_fields)

text \<open>
  C2, as stated, fails: after the first challenge has arrived and the player skips it,
  the status is LOADING_CHALLENGE and the current challenge is still present.
\<close>

theorem challenge_kept_while_loading:
  "(case run skip_trace initial_System of
      None \<Rightarrow> False
    | Some s \<Rightarrow> reachable s \<and> status (gameState (app s)) = LOADING_CHALLENGE
               \<and> currentChallenge (gameState (app s)) \<noteq> None)"
  using run_reachable [OF reachable_initial, of skip_trace] skip_eval
  by (auto split: option.splits)

section \<open>Submissions in flight\<close>

lemma in_flight_settle:
  assumes "k < length (pending s)"
  shows "in_flight i (settle k s)
       = in_flight i s - (if submitted_by (pending s ! k) = Some i then 1 else 0)"
proof -
  have "pending (settle k s) = take k (pending s) @ drop (Suc k) (pending s)"
    by (simp add: settle_def)
  then show ?thesis
    unfolding in_flight_def by (simp only: filter_remove_nth [OF assms])
qed

lemma in_flight_await:
  "in_flight i (await p s) = in_flight i s + (if submitted_by p = Some i then 1 else 0)"
  by (simp add: in_flight_def await_def)

lemma in_flight_update_app [simp]: "in_flight i (update_app f s) = in_flight i s"
  by (simp add: in_flight_def update_app_def)

lemma in_flight_on_instance [simp]: "in_flight i (on_instance j f s) = in_flight i s"
  by (simp add: in_flight_def on_instance_def split: option.splits)

lemma set_pending_settle: "p \<in> set (pending (settle k s)) \<Longrightarrow> p \<in> set (pending s)"
  by (auto simp: settle_def dest: in_set_takeD in_set_dropD)

lemma in_flight_zero:
  "(\<forall>p\<in>set (pending s). submitted_by p \<noteq> Some i) \<Longrightarrow> in_flight i s = 0"
  by (simp add: in_flight_def)

lemma in_flight_pos:
  "p \<in> set (pending s) \<Longrightarrow> submitted_by p = Some i \<Longrightarrow> 0 < in_flight i s"
  by (auto simp: in_flight_def filter_empty_conv)

text \<open>Each event keeps the outstanding submissions tracked.\<close>

lemma tracked_update_app [simp]: "tracked (update_app f s) = tracked s"
  by (simp add: tracked_def)

lemma tracked_render: "tracked s \<Longrightarrow> tracked (render s)"
proof (cases "status (gameState (app s)) = PLAYING
              \<and> currentChallenge (gameState (app s)) \<noteq> None")
  case False
  assume t: "tracked s"
  from False have "render s = s\<lparr>screen := None\<rparr>"
    unfolding render_def by (rule if_not_P)
  with t show ?thesis
    by (simp add: tracked_def in_flight_def)
next
  case True
  assume t: "tracked s"
  from True have r: "render s =
      (case screen s of
         None \<Rightarrow> s\<lparr>screen := Some (mounts s, initial_Screen), mounts := mounts s + 1\<rparr>
       | Some _ \<Rightarrow> s)"
    unfolding render_def by (rule if_P)
  show ?thesis
  proof (cases "screen s")
    case (Some x)
    with r t show ?thesis by simp
  next
    case None
    from t have "\<forall>p\<in>set (pending s). submitted_by p \<noteq> Some (mounts s)"
      by (auto simp: tracked_def)
    then have "length (filter (\<lambda>p. submitted_by p = Some (mounts s)) (pending s)) = 0"
      by simp
    with r None t show ?thesis
      by (auto simp: tracked_def in_flight_def initial_Screen_def intro: less_SucI)
  qed
qed

lemma tracked_await_other:
  "submitted_by p = None \<Longrightarrow> tracked s \<Longrightarrow> tracked (await p s)"
  by (auto simp: tracked_def in_flight_await)

lemma tracked_settle_other:
  assumes "k < length (pending s)" and "submitted_by (pending s ! k) = None"
    and "tracked s"
  shows "tracked (settle k s)"
  using assms
  by (auto simp: tracked_def in_flight_settle dest: set_pending_settle)

lemma tracked_on_instance_keep:
  assumes "tracked s" and "\<And>sc. validating (f sc) = validating sc"
  shows "tracked (on_instance i f s)"
  using assms
  by (auto simp: tracked_def screen_on_instance_eq split: option.splits if_splits)

lemma tracked_input:
  assumes "tracked s" and "screen s = Some (i, sc)"
  shows "tracked (s\<lparr>screen := Some (i, sc\<lparr>input := text\<rparr>)\<rparr>)"
  using assms by (auto simp: tracked_def in_flight_def)

lemma tracked_handleSubmit: "tracked s \<Longrightarrow> tracked (handleSubmit s)"
proof -
  assume t: "tracked s"
  show ?thesis
  proof (cases "screen s")
    case None
    with t show ?thesis by (simp add: handleSubmit_def)
  next
    case (Some x)
    obtain i sc where x: "x = (i, sc)" by (cases x)
    show ?thesis
    proof (cases "currentChallenge (gameState (app s))")
      case None
      with Some x t show ?thesis by (simp add: handleSubmit_def)
    next
      case (Some challenge)
      show ?thesis
      proof (cases "trim (input sc) = [] \<or> validating sc")
        case True
        with \<open>screen s = Some x\<close> x Some t show ?thesis
          by (simp add: handleSubmit_def)
      next
        case False
        with \<open>screen s = Some x\<close> x t have "i < mounts s" "in_flight i s = 0"
          by (auto simp: tracked_def)
        with False \<open>screen s = Some x\<close> x Some t show ?thesis
          by (auto simp: handleSubmit_def tracked_def in_flight_await screen_on_instance_eq)
      qed
    qed
  qed
qed

lemma tracked_handleSkip: "tracked s \<Longrightarrow> tracked (handleSkip s)"
  by (auto simp: handleSkip_def split: option.splits
      intro!: tracked_on_instance_keep tracked_await_other)

lemma tracked_result:
  assumes "k < length (pending s)"
    and "pending s ! k = Validate_await j challenge text rendered"
    and "tracked s"
  shows "tracked (handleSubmit_result j rendered result (settle k s))"
proof -
  from assms(1,2) have mem: "Validate_await j challenge text rendered \<in> set (pending s)"
    by (metis nth_mem)
  with assms(3) have j: "j < mounts s"
    by (auto simp: tracked_def)
  have fl: "in_flight i (settle k s) = in_flight i s - (if i = j then 1 else 0)" for i
    using in_flight_settle [OF assms(1), of i] assms(2) by auto
  have pend: "\<forall>p\<in>set (pending (settle k s)). \<forall>j. submitted_by p = Some j \<longrightarrow> j < mounts s"
    using assms(3) by (auto simp: tracked_def dest: set_pending_settle)
  have cur: "screen s = Some (i, sc) \<Longrightarrow>
      i < mounts s \<and> in_flight i s = (if validating sc then 1 else 0)" for i sc
    using assms(3) by (simp add: tracked_def)
  have pos: "0 < in_flight j s"
    using mem by (rule in_flight_pos) simp
  show ?thesis
  proof (cases "isValid result")
    case True
    then show ?thesis
      using pend j fl cur pos
      by (auto simp: handleSubmit_result_def tracked_def in_flight_await
          screen_on_instance_eq split: option.splits if_splits)
  next
    case False
    then show ?thesis
      using pend j fl cur pos
      by (auto simp: handleSubmit_result_def tracked_def screen_on_instance_eq
          split: option.splits if_splits)
  qed
qed

lemma tracked_timeout:
  assumes "k < length (pending s)"
    and "pending s ! k = NextRound_timeout j rendered"
    and "tracked s"
  shows "tracked (handleSubmit_timeout j rendered (settle k s))"
proof -
  from assms(1,2) have mem: "NextRound_timeout j rendered \<in> set (pending s)"
    by (metis nth_mem)
  have fl: "in_flight i (settle k s) = in_flight i s - (if i = j then 1 else 0)" for i
    using in_flight_settle [OF assms(1), of i] assms(2) by auto
  have pend: "\<forall>p\<in>set (pending (settle k s)). \<forall>j. submitted_by p = Some j \<longrightarrow> j < mounts s"
    using assms(3) by (auto simp: tracked_def dest: set_pending_settle)
  have cur: "screen s = Some (i, sc) \<Longrightarrow>
      i < mounts s \<and> in_flight i s = (if validating sc then 1 else 0)" for i sc
    using assms(3) by (simp add: tracked_def)
  have pos: "0 < in_flight j s"
    using mem by (rule in_flight_pos) simp
  show ?thesis
    using pend fl cur pos
    by (auto simp: handleSubmit_timeout_def tracked_def in_flight_await
        screen_on_instance_eq split: option.splits if_splits)
qed

lemma step_tracked:
  assumes "step e s = Some s'" and "tracked s"
  shows "tracked s'"
proof (cases e)
  case Tick
  with assms show ?thesis by (auto split: if_splits intro: tracked_render)
next
  case Click_start
  with assms show ?thesis
    by (auto split: if_splits intro!: tracked_render tracked_await_other)
next
  case Click_menu
  with assms show ?thesis by (auto split: if_splits intro: tracked_render)
next
  case (Click_difficulty level)
  with assms show ?thesis by (auto split: if_splits intro: tracked_render)
next
  case (Change_input t)
  with assms show ?thesis
    by (auto split: option.splits if_splits intro: tracked_input)
next
  case Submit
  with assms show ?thesis
    by (auto split: option.splits intro: tracked_handleSubmit)
next
  case Click_skip
  with assms show ?thesis
    by (auto split: option.splits if_splits intro!: tracked_render tracked_handleSkip)
next
  case (Generation_settles k ai rnd1 rnd2 uuid)
  with assms obtain x where k: "k < length (pending s)"
    and x: "generation_settled (pending s ! k) ai rnd1 rnd2 uuid (settle k s) = Some x"
    and s': "s' = render x"
    by (auto split: if_splits)
  from x have "submitted_by (pending s ! k) = None \<and> (\<exists>f. x = update_app f (settle k s))"
    unfolding generation_settled_def
    by (cases "pending s ! k") (auto split: sum.splits)
  with k assms(2) have "tracked x"
    by (auto intro: tracked_settle_other)
  with s' show ?thesis by (simp add: tracked_render)
next
  case (Validation_settles k ai)
  with assms obtain x where k: "k < length (pending s)"
    and x: "validation_settled (pending s ! k) ai (settle k s) = Some x"
    and s': "s' = render x"
    by (auto split: if_splits)
  from x obtain j challenge typed rendered where
    p: "pending s ! k = Validate_await j challenge typed rendered"
    unfolding validation_settled_def by (cases "pending s ! k") auto
  obtain result where "fst (validateAnswer ai (name (cardA challenge)) (name (cardB challenge))
      typed (case possibleAnswers challenge of None \<Rightarrow> [] | Some answers \<Rightarrow> answers)) = Inr result"
    using validateAnswer_never_throws by blast
  with x p have "x = handleSubmit_result j rendered result (settle k s)"
    by (simp add: validation_settled_def)
  with tracked_result [OF k p assms(2)] have "tracked x" by simp
  with s' show ?thesis by (simp add: tracked_render)
next
  case (Timeout_fires k)
  with assms obtain x where k: "k < length (pending s)"
    and x: "timeout_fired (pending s ! k) (settle k s) = Some x"
    and s': "s' = render x"
    by (auto split: if_splits)
  from x obtain j rendered where p: "pending s ! k = NextRound_timeout j rendered"
    and "x = handleSubmit_timeout j rendered (settle k s)"
    unfolding timeout_fired_def by (cases "pending s ! k") auto
  with tracked_timeout [OF k p assms(2)] have "tracked x" by simp
  with s' show ?thesis by (simp add: tracked_render)
qed

lemma reachable_tracked: "reachable s \<Longrightarrow> tracked s"
proof (induction rule: reachable.induct)
  case reachable_initial
  show ?case by (simp add: tracked_def initial_System_def)
next
  case (reachable_step s e s')
  then show ?case by (auto intro: step_tracked)
qed

lemma in_flight_validating:
  assumes "reachable s" and "screen s = Some (i, sc)"
    and "p \<in> set (pending s)" and "submitted_by p = Some i"
  shows "validating sc"
proof (rule ccontr)
  assume "\<not> validating sc"
  with reachable_tracked [OF assms(1)] assms(2) have "in_flight i s = 0"
    by (simp add: tracked_def)
  with in_flight_pos [OF assms(3,4)] show False by simp
qed

lemma submit_run: "run submit_trace initial_System = Some submitted_System"
  by (simp add: submit_trace_def system_eval submitted_System_def sample_app_def
      sample_challenge_def trim_Kaka)

lemma submitted_reachable: "reachable submitted_System"
  using run_reachable [OF reachable_initial, of submit_trace]
  by (simp only: submit_run option.case)

section \<open>Requests and their continuations\<close>

subsection \<open>What each event does to the outstanding operations\<close>

lemma step_Click_start:
  assumes "step Click_start s = Some s'"
  shows "(status (gameState (app s)) = IDLE \<or> status (gameState (app s)) = GAME_OVER)
    \<and> app s' = startGame_begin (app s)
    \<and> pending s' = pending s @ [StartGame_await (difficulty (gameState (app s))) []]"
  using assms by (auto split: if_splits)

lemma step_Click_skip:
  assumes "step Click_skip s = Some s'"
  shows "screen s \<noteq> None
    \<and> app s' = handleNextRound_begin 0 (app s)
    \<and> pending s' = pending s @ [NextRound_await (difficulty (gameState (app s)))
                                    (seenEntities (gameState (app s)))]"
  using assms
  by (auto simp: handleSkip_def split: option.splits if_splits)

lemma step_Submit:
  assumes "step Submit s = Some s'"
  shows "\<exists>i sc. screen s = Some (i, sc)
    \<and> gameState (app s') = gameState (app s)
    \<and> (pending s' = pending s
        \<or> (\<exists>challenge. pending s' = pending s @ [Validate_await i challenge (input sc)
                                                    (gameState (app s))]))"
proof -
  from assms obtain i sc where sc: "screen s = Some (i, sc)" and s': "s' = handleSubmit s"
    by (auto split: option.splits)
  have "pending (handleSubmit s) = pending s
        \<or> (\<exists>challenge. pending (handleSubmit s)
              = pending s @ [Validate_await i challenge (input sc) (gameState (app s))])"
    using sc by (cases "currentChallenge (gameState (app s))") (auto simp: handleSubmit_def)
  with sc s' show ?thesis
    by (simp add: gameState_handleSubmit)
qed

lemma step_Generation_settles:
  assumes "step (Generation_settles k ai rnd1 rnd2 uuid) s = Some s'"
  shows "k < length (pending s)
    \<and> pending s' = take k (pending s) @ drop (Suc k) (pending s)
    \<and> (case pending s ! k of
         StartGame_await d excluded \<Rightarrow>
           app s' = (case fst (generateChallenge ai rnd1 rnd2 uuid d excluded) of
                       Inr challenge \<Rightarrow> startGame_resolved challenge (app s)
                     | Inl e \<Rightarrow> startGame_rejected (app s))
       | NextRound_await d excluded \<Rightarrow>
           app s' = (case fst (generateChallenge ai rnd1 rnd2 uuid d excluded) of
                       Inr challenge \<Rightarrow> handleNextRound_resolved challenge (app s)
                     | Inl e \<Rightarrow> handleNextRound_rejected (app s))
       | _ \<Rightarrow> False)"
proof -
  from assms obtain x where k: "k < length (pending s)"
    and x: "generation_settled (pending s ! k) ai rnd1 rnd2 uuid (settle k s) = Some x"
    and s': "s' = render x"
    by (auto split: if_splits)
  from x have "pending x = pending (settle k s)
    \<and> (case pending s ! k of
         StartGame_await d excluded \<Rightarrow>
           app x = (case fst (generateChallenge ai rnd1 rnd2 uuid d excluded) of
                       Inr challenge \<Rightarrow> startGame_resolved challenge (app s)
                     | Inl e \<Rightarrow> startGame_rejected (app s))
       | NextRound_await d excluded \<Rightarrow>
           app x = (case fst (generateChallenge ai rnd1 rnd2 uuid d excluded) of
                       Inr challenge \<Rightarrow> handleNextRound_resolved challenge (app s)
                     | Inl e \<Rightarrow> handleNextRound_rejected (app s))
       | _ \<Rightarrow> False)"
    unfolding generation_settled_def
    by (cases "pending s ! k") (auto split: sum.splits)
  with k s' show ?thesis
    by (auto simp: settle_def split: pending.splits)
qed

lemma step_Validation_settles:
  assumes "step (Validation_settles k ai) s = Some s'"
  shows "k < length (pending s)
    \<and> (\<exists>j challenge typed rendered result.
          pending s ! k = Validate_await j challenge typed rendered
          \<and> s' = render (handleSubmit_result j rendered result (settle k s))
          \<and> gameState (app s') = gameState (app s)
          \<and> isValidating (app s') = (isValid result \<and> isValidating (app s))
          \<and> pending s' = take k (pending s) @ drop (Suc k) (pending s)
                          @ (if isValid result then [NextRound_timeout j rendered] else []))"
proof -
  from assms obtain x where k: "k < length (pending s)"
    and x: "validation_settled (pending s ! k) ai (settle k s) = Some x"
    and s': "s' = render x"
    by (auto split: if_splits)
  from x obtain j challenge typed rendered where
    p: "pending s ! k = Validate_await j challenge typed rendered"
    unfolding validation_settled_def by (cases "pending s ! k") auto
  obtain result where "fst (validateAnswer ai (name (cardA challenge)) (name (cardB challenge))
      typed (case possibleAnswers challenge of None \<Rightarrow> [] | Some answers \<Rightarrow> answers)) = Inr result"
    using validateAnswer_never_throws by blast
  with x p have x': "x = handleSubmit_result j rendered result (settle k s)"
    by (simp add: validation_settled_def)
  have "gameState (app x) = gameState (app s)
      \<and> isValidating (app x) = (isValid result \<and> isValidating (app s))
      \<and> pending x = take k (pending s) @ drop (Suc k) (pending s)
                      @ (if isValid result then [NextRound_timeout j rendered] else [])"
    unfolding x' by (simp add: handleSubmit_result_def settle_def)
  then have "gameState (app s') = gameState (app s)"
    and "isValidating (app s') = (isValid result \<and> isValidating (app s))"
    and "pending s' = take k (pending s) @ drop (Suc k) (pending s)
                      @ (if isValid result then [NextRound_timeout j rendered] else [])"
    unfolding s' by simp_all
  moreover have "s' = render (handleSubmit_result j rendered result (settle k s))"
    unfolding s' x' ..
  ultimately show ?thesis
    using k p by blast
qed

lemma step_Timeout_fires:
  assumes "step (Timeout_fires k) s = Some s'"
  shows "k < length (pending s)
    \<and> (\<exists>j rendered.
          pending s ! k = NextRound_timeout j rendered
          \<and> app s' = handleNextRound_begin 10 ((app s)\<lparr>isValidating := False\<rparr>)
          \<and> pending s' = take k (pending s) @ drop (Suc k) (pending s)
                          @ [NextRound_await (difficulty rendered) (seenEntities rendered)])"
proof -
  from assms obtain x where k: "k < length (pending s)"
    and x: "timeout_fired (pending s ! k) (settle k s) = Some x"
    and s': "s' = render x"
    by (auto split: if_splits)
  from x obtain j rendered where p: "pending s ! k = NextRound_timeout j rendered"
    and x': "x = handleSubmit_timeout j rendered (settle k s)"
    unfolding timeout_fired_def by (cases "pending s ! k") auto
  have "app x = handleNextRound_begin 10 ((app s)\<lparr>isValidating := False\<rparr>)
      \<and> pending x = take k (pending s) @ drop (Suc k) (pending s)
                      @ [NextRound_await (difficulty rendered) (seenEntities rendered)]"
    unfolding x' by (simp add: handleSubmit_timeout_def settle_def)
  with k p s' show ?thesis
    by simp
qed

lemma set_remove_nth: "p \<in> set (take k xs @ drop (Suc k) xs) \<Longrightarrow> p \<in> set xs"
  by (auto dest: in_set_takeD in_set_dropD)

text \<open>
  An operation that is outstanding after an event and was not before has been issued by
  that event: a start request by a click on the start button, a request for the next
  round by a skip or by the timeout of an accepted answer, a validation by a submission,
  and the timeout by the settlement of a validation.
\<close>

lemma step_pending:
  assumes "step e s = Some s'" and "p \<in> set (pending s')" and "p \<notin> set (pending s)"
  shows "case e of
      Click_start \<Rightarrow> p = StartGame_await (difficulty (gameState (app s))) []
    | Click_skip \<Rightarrow> p = NextRound_await (difficulty (gameState (app s)))
                          (seenEntities (gameState (app s)))
    | Submit \<Rightarrow> (\<exists>i sc challenge. screen s = Some (i, sc)
                    \<and> p = Validate_await i challenge (input sc) (gameState (app s)))
    | Validation_settles k ai \<Rightarrow>
        (\<exists>j challenge typed rendered. Validate_await j challenge typed rendered \<in> set (pending s)
            \<and> p = NextRound_timeout j rendered)
    | Timeout_fires k \<Rightarrow>
        (\<exists>j rendered. NextRound_timeout j rendered \<in> set (pending s)
            \<and> p = NextRound_await (difficulty rendered) (seenEntities rendered))
    | _ \<Rightarrow> False"
proof (cases e)
  case Tick
  with assms(1) have "pending s' = pending s" by (auto split: if_splits)
  with assms(2,3) show ?thesis by simp
next
  case Click_start
  with assms(1) have "step Click_start s = Some s'" by simp
  from step_Click_start [OF this] assms(2,3)
  have "p = StartGame_await (difficulty (gameState (app s))) []" by auto
  with Click_start show ?thesis by simp
next
  case Click_menu
  with assms(1) have "pending s' = pending s" by (auto split: if_splits)
  with assms(2,3) show ?thesis by simp
next
  case (Click_difficulty level)
  with assms(1) have "pending s' = pending s" by (auto split: if_splits)
  with assms(2,3) show ?thesis by simp
next
  case (Change_input t)
  with assms(1) have "pending s' = pending s" by (auto split: option.splits if_splits)
  with assms(2,3) show ?thesis by simp
next
  case Submit
  with assms(1) have "step Submit s = Some s'" by simp
  from step_Submit [OF this] obtain i sc where sc: "screen s = Some (i, sc)"
    and "pending s' = pending s
        \<or> (\<exists>challenge. pending s' = pending s @ [Validate_await i challenge (input sc)
                                                    (gameState (app s))])"
    by blast
  with assms(2,3)
  have "\<exists>challenge. p = Validate_await i challenge (input sc) (gameState (app s))"
    by auto
  with sc Submit show ?thesis by simp
next
  case Click_skip
  with assms(1) have "step Click_skip s = Some s'" by simp
  from step_Click_skip [OF this] assms(2,3)
  have "p = NextRound_await (difficulty (gameState (app s))) (seenEntities (gameState (app s)))"
    by auto
  with Click_skip show ?thesis by simp
next
  case (Generation_settles k ai rnd1 rnd2 uuid)
  with assms(1) have "step (Generation_settles k ai rnd1 rnd2 uuid) s = Some s'" by simp
  from step_Generation_settles [OF this]
  have "pending s' = take k (pending s) @ drop (Suc k) (pending s)" by blast
  with assms(2) have "p \<in> set (pending s)"
    by (auto dest: in_set_takeD in_set_dropD)
  with assms(3) show ?thesis by simp
next
  case (Validation_settles k ai)
  with assms(1) have "step (Validation_settles k ai) s = Some s'" by simp
  from step_Validation_settles [OF this] obtain j challenge typed rendered result where
    k: "k < length (pending s)"
    and p: "pending s ! k = Validate_await j challenge typed rendered"
    and "s' = render (handleSubmit_result j rendered result (settle k s))"
    and n: "pending s' = take k (pending s) @ drop (Suc k) (pending s)
                          @ (if isValid result then [NextRound_timeout j rendered] else [])"
    by blast
  from k p have "Validate_await j challenge typed rendered \<in> set (pending s)"
    by (metis nth_mem)
  moreover from n assms(2,3) have "p = NextRound_timeout j rendered"
    by (auto dest: in_set_takeD in_set_dropD split: if_splits)
  ultimately show ?thesis
    using Validation_settles by auto
next
  case (Timeout_fires k)
  with assms(1) have "step (Timeout_fires k) s = Some s'" by simp
  from step_Timeout_fires [OF this] obtain j rendered where
    k: "k < length (pending s)"
    and p: "pending s ! k = NextRound_timeout j rendered"
    and n: "pending s' = take k (pending s) @ drop (Suc k) (pending s)
                          @ [NextRound_await (difficulty rendered) (seenEntities rendered)]"
    by blast
  from k p have "NextRound_timeout j rendered \<in> set (pending s)"
    by (metis nth_mem)
  moreover from n assms(2,3)
  have "p = NextRound_await (difficulty rendered) (seenEntities rendered)"
    by (auto dest: in_set_takeD in_set_dropD)
  ultimately show ?thesis
    using Timeout_fires by auto
qed

subsection \<open>The mounted game screen\<close>

text \<open>The game screen is mounted exactly while a challenge is being played.\<close>

lemma step_mounted:
  assumes "step e s = Some s'"
    and "screen s \<noteq> None \<longleftrightarrow>
           status (gameState (app s)) = PLAYING \<and> currentChallenge (gameState (app s)) \<noteq> None"
  shows "screen s' \<noteq> None \<longleftrightarrow>
           status (gameState (app s')) = PLAYING \<and> currentChallenge (gameState (app s')) \<noteq> None"
proof (cases "e = Submit \<or> (\<exists>t. e = Change_input t)")
  case True
  then show ?thesis
  proof
    assume "e = Submit"
    with assms(1) have "screen s \<noteq> None" and s': "s' = handleSubmit s"
      by (auto split: option.splits)
    then have "screen s' \<noteq> None" and "gameState (app s') = gameState (app s)"
      by (simp_all add: screen_handleSubmit gameState_handleSubmit)
    with \<open>screen s \<noteq> None\<close> assms(2) show ?thesis by simp
  next
    assume "\<exists>t. e = Change_input t"
    with assms show ?thesis
      by (auto split: option.splits if_splits)
  qed
next
  case False
  with assms obtain x where "s' = render x"
    by (cases e) (auto split: if_splits option.splits)
  then show ?thesis
    using screen_render [of x] by simp
qed

lemma reachable_mounted:
  "reachable s \<Longrightarrow>
     (screen s \<noteq> None \<longleftrightarrow>
        status (gameState (app s)) = PLAYING \<and> currentChallenge (gameState (app s)) \<noteq> None)"
proof (induction rule: reachable.induct)
  case reachable_initial
  show ?case by (simp add: initial_System_def initial_App_def)
next
  case (reachable_step s e s')
  from step_mounted [OF reachable_step.hyps(2) reachable_step.IH]
  show ?case .
qed

lemma uncovered_reachable: "reachable_uncovered s \<Longrightarrow> reachable s"
  by (induction rule: reachable_uncovered.induct) (auto intro: reachable.intros)

text \<open>
  An event other than the settlement of a generation request mounts no new instance of
  the game screen.
\<close>

lemma screen_render_cases:
  "screen (render x) = Some y \<Longrightarrow>
     screen x = Some y
     \<or> (screen x = None \<and> status (gameState (app x)) = PLAYING
          \<and> currentChallenge (gameState (app x)) \<noteq> None)"
  by (auto simp: render_def split: if_splits option.splits)

lemma step_instance:
  assumes "step e s = Some s'"
    and "screen s \<noteq> None \<longleftrightarrow>
           status (gameState (app s)) = PLAYING \<and> currentChallenge (gameState (app s)) \<noteq> None"
    and "screen s' = Some (i, sc)"
  shows "(\<exists>sc0. screen s = Some (i, sc0) \<and> (validating sc \<longrightarrow> validating sc0 \<or> e = Submit))
         \<or> (\<exists>k ai rnd1 rnd2 uuid. e = Generation_settles k ai rnd1 rnd2 uuid)"
proof (cases e)
  case Tick
  with assms(1) have t: "timerRuns (gameState (app s))"
    and s': "s' = render (update_app (\<lambda>a. a\<lparr>gameState := tick (gameState a)\<rparr>) s)"
    by (auto split: if_splits)
  from screen_render_cases [of "update_app (\<lambda>a. a\<lparr>gameState := tick (gameState a)\<rparr>) s" "(i, sc)"]
    assms(3) s'
  have "screen s = Some (i, sc)
     \<or> (screen s = None \<and> status (tick (gameState (app s))) = PLAYING
          \<and> currentChallenge (tick (gameState (app s))) \<noteq> None)"
    by simp
  moreover have "currentChallenge (tick (gameState (app s))) = currentChallenge (gameState (app s))"
    by (simp add: tick_def)
  moreover from t have "status (gameState (app s)) = PLAYING"
    by (simp add: timerRuns_def)
  ultimately show ?thesis
    using assms(2) by auto
next
  case Click_start
  with step_gameState [OF assms(1)] have "status (gameState (app s')) = LOADING_CHALLENGE"
    by (simp add: startGame_begin_def)
  with step_mounted [OF assms(1,2)] assms(3) show ?thesis by simp
next
  case Click_menu
  with step_gameState [OF assms(1)] have "status (gameState (app s')) = IDLE"
    by (simp add: resetGame_def)
  with step_mounted [OF assms(1,2)] assms(3) show ?thesis by simp
next
  case (Click_difficulty level)
  with assms(1) have "status (gameState (app s')) = IDLE"
    by (auto simp: setDifficulty_def split: if_splits)
  with step_mounted [OF assms(1,2)] assms(3) show ?thesis by simp
next
  case (Change_input t)
  with assms(1,3) show ?thesis
    by (auto split: option.splits if_splits)
next
  case Submit
  with assms(1) obtain x where x: "screen s = Some x" and s': "s' = handleSubmit s"
    by (auto split: option.splits)
  obtain j sc0 where j: "x = (j, sc0)" by (cases x)
  from x j s' assms(3) have "j = i"
    by (cases "currentChallenge (gameState (app s))")
      (auto simp: handleSubmit_def on_instance_def split: if_splits)
  with x j Submit show ?thesis by simp
next
  case Click_skip
  with step_gameState [OF assms(1)] have "status (gameState (app s')) = LOADING_CHALLENGE"
    by (simp add: handleNextRound_begin_def)
  with step_mounted [OF assms(1,2)] assms(3) show ?thesis by simp
next
  case (Generation_settles k ai rnd1 rnd2 uuid)
  then show ?thesis by simp
next
  case (Validation_settles k ai)
  with assms(1) have "step (Validation_settles k ai) s = Some s'" by simp
  from step_Validation_settles [OF this] obtain j challenge typed rendered result where
    s': "s' = render (handleSubmit_result j rendered result (settle k s))"
    and g: "gameState (app s') = gameState (app s)"
    by blast
  let ?x = "handleSubmit_result j rendered result (settle k s)"
  have ax: "gameState (app ?x) = gameState (app s)"
    by (simp add: gameState_handleSubmit_result)
  have sx: "screen ?x = None \<longleftrightarrow> screen s = None"
    by (simp add: handleSubmit_result_def)
  from screen_render_cases [of ?x "(i, sc)"] assms(3) s' ax sx assms(2)
  have "screen ?x = Some (i, sc)"
    by auto
  then have "\<exists>sc0. screen s = Some (i, sc0) \<and> (validating sc \<longrightarrow> validating sc0)"
    by (auto simp: handleSubmit_result_def screen_on_instance_eq
        split: if_splits option.splits)
  then show ?thesis by blast
next
  case (Timeout_fires k)
  with step_gameState [OF assms(1)] have "status (gameState (app s')) = LOADING_CHALLENGE"
    by (simp add: handleNextRound_begin_def)
  with step_mounted [OF assms(1,2)] assms(3) show ?thesis by simp
qed

subsection \<open>Uncovered runs: what is outstanding belongs to the current state\<close>

lemma generating_mem:
  "p \<in> set (pending s) \<Longrightarrow> submitted_by p = None \<Longrightarrow> 0 < generating s"
  by (auto simp: generating_def filter_empty_conv)

lemma submitting_mem:
  "p \<in> set (pending s) \<Longrightarrow> submitted_by p \<noteq> None \<Longrightarrow> 0 < submitting s"
  by (auto simp: submitting_def filter_empty_conv)

text \<open>
  While a challenge is loading the only event of an uncovered run is the settlement of a
  generation request; while an answer is being validated the only events are the ticks
  of the clock, the settlement of the validation and the timeout of the accepted answer.
\<close>

lemma loading_events:
  assumes "step e s = Some s'" and "serial s"
    and "user_event e \<longrightarrow> \<not> showLoading (app s)"
    and "status (gameState (app s)) = LOADING_CHALLENGE"
  shows "\<exists>k ai rnd1 rnd2 uuid. e = Generation_settles k ai rnd1 rnd2 uuid"
proof (cases e)
  case Tick
  with step_gameState [OF assms(1)] assms(4) show ?thesis
    by (simp add: timerRuns_def)
next
  case (Validation_settles k ai)
  with assms(1) have "step (Validation_settles k ai) s = Some s'" by simp
  from step_Validation_settles [OF this] obtain j challenge typed rendered
    where "k < length (pending s)"
      and "pending s ! k = Validate_await j challenge typed rendered"
    by blast
  then have "0 < submitting s"
    by (intro submitting_pos [of k s j]) simp_all
  with assms(2,4) show ?thesis
    by (auto simp: serial_def split: if_splits)
next
  case (Timeout_fires k)
  with assms(1) have "step (Timeout_fires k) s = Some s'" by simp
  from step_Timeout_fires [OF this] obtain j rendered
    where "k < length (pending s)" and "pending s ! k = NextRound_timeout j rendered"
    by blast
  then have "0 < submitting s"
    by (intro submitting_pos [of k s j]) simp_all
  with assms(2,4) show ?thesis
    by (auto simp: serial_def split: if_splits)
qed (use assms(3,4) in \<open>simp_all add: showLoading_def\<close>)

lemma validating_events:
  assumes "step e s = Some s'" and "serial s"
    and "user_event e \<longrightarrow> \<not> showLoading (app s)"
    and "isValidating (app s)"
  shows "e = Tick \<or> (\<exists>k ai. e = Validation_settles k ai) \<or> (\<exists>k. e = Timeout_fires k)"
proof (cases e)
  case (Generation_settles k ai rnd1 rnd2 uuid)
  with assms(1) have "step (Generation_settles k ai rnd1 rnd2 uuid) s = Some s'" by simp
  from step_Generation_settles [OF this]
  have "k < length (pending s)" and "submitted_by (pending s ! k) = None"
    by (auto split: pending.splits)
  then have "0 < generating s"
    by (rule generating_pos)
  with assms(2,4) show ?thesis
    by (auto simp: serial_def split: if_splits)
qed (use assms(3,4) in \<open>simp_all add: showLoading_def\<close>)

text \<open>
  In an uncovered run the score is 0 as long as a start request is outstanding.
\<close>

lemma step_start_score:
  assumes "step e s = Some s'" and "serial s"
    and "user_event e \<longrightarrow> \<not> showLoading (app s)"
    and "\<forall>d excluded. StartGame_await d excluded \<in> set (pending s)
            \<longrightarrow> score (gameState (app s)) = 0"
  shows "\<forall>d excluded. StartGame_await d excluded \<in> set (pending s')
            \<longrightarrow> score (gameState (app s')) = 0"
proof (intro allI impI)
  fix d excluded
  assume m: "StartGame_await d excluded \<in> set (pending s')"
  have serial': "serial s'"
    using step_serial [OF assms(1,3,2)] by simp
  show "score (gameState (app s')) = 0"
  proof (cases "StartGame_await d excluded \<in> set (pending s)")
    case True
    then have "0 < generating s"
      by (rule generating_mem) simp
    with assms(2) have "status (gameState (app s)) = LOADING_CHALLENGE"
      by (auto simp: serial_def split: if_splits)
    from loading_events [OF assms(1,2,3) this] obtain k ai rnd1 rnd2 uuid
      where e: "e = Generation_settles k ai rnd1 rnd2 uuid" by blast
    with step_gameState [OF assms(1)]
    have "status (gameState (app s')) \<noteq> LOADING_CHALLENGE"
      by (auto simp: startGame_resolved_def startGame_rejected_def
          handleNextRound_resolved_def handleNextRound_rejected_def)
    with serial' have "generating s' = 0"
      by (simp add: serial_def)
    moreover from m have "0 < generating s'"
      by (rule generating_mem) simp
    ultimately show ?thesis by simp
  next
    case False
    from step_pending [OF assms(1) m False] have "e = Click_start"
      by (cases e) auto
    with step_gameState [OF assms(1)] show ?thesis
      by (simp add: startGame_begin_def)
  qed
qed

text \<open>
  In an uncovered run the render a submission was made in has the difficulty and the
  seen names of the current state, as long as the submission is outstanding.
\<close>

lemma step_captured:
  assumes "step e s = Some s'" and "serial s"
    and "user_event e \<longrightarrow> \<not> showLoading (app s)"
    and "\<forall>p\<in>set (pending s). \<forall>g. captured p = Some g \<longrightarrow>
            seenEntities g = seenEntities (gameState (app s))
            \<and> difficulty g = difficulty (gameState (app s))"
  shows "\<forall>p\<in>set (pending s'). \<forall>g. captured p = Some g \<longrightarrow>
            seenEntities g = seenEntities (gameState (app s'))
            \<and> difficulty g = difficulty (gameState (app s'))"
proof (intro ballI allI impI)
  fix p g
  assume m: "p \<in> set (pending s')" and c: "captured p = Some g"
  from c have nn: "submitted_by p \<noteq> None"
    by (cases p) auto
  show "seenEntities g = seenEntities (gameState (app s'))
        \<and> difficulty g = difficulty (gameState (app s'))"
  proof (cases "p \<in> set (pending s)")
    case True
    with assms(4) c have g: "seenEntities g = seenEntities (gameState (app s))
        \<and> difficulty g = difficulty (gameState (app s))"
      by blast
    from True nn have "0 < submitting s"
      by (rule submitting_mem)
    with assms(2) have "isValidating (app s)"
      by (auto simp: serial_def split: if_splits)
    from validating_events [OF assms(1,2,3) this] step_gameState [OF assms(1)]
    have "seenEntities (gameState (app s')) = seenEntities (gameState (app s))
        \<and> difficulty (gameState (app s')) = difficulty (gameState (app s))"
      by (auto simp: tick_def handleNextRound_begin_def)
    with g show ?thesis by simp
  next
    case False
    note new = step_pending [OF assms(1) m False]
    show ?thesis
    proof (cases e)
      case Submit
      with new c have "g = gameState (app s)" by auto
      with step_gameState [OF assms(1)] Submit show ?thesis by simp
    next
      case (Validation_settles k ai)
      with new c obtain j challenge typed
        where "Validate_await j challenge typed g \<in> set (pending s)"
        by auto
      with assms(4) have "seenEntities g = seenEntities (gameState (app s))
        \<and> difficulty g = difficulty (gameState (app s))"
        by fastforce
      with step_gameState [OF assms(1)] Validation_settles show ?thesis by simp
    qed (use new c in auto)
  qed
qed

text \<open>
  In an uncovered run every outstanding submission is one of the mounted game screen, if
  a game screen is mounted.
\<close>

lemma step_own:
  assumes "step e s = Some s'" and "serial s"
    and "user_event e \<longrightarrow> \<not> showLoading (app s)"
    and "screen s \<noteq> None \<longleftrightarrow>
           status (gameState (app s)) = PLAYING \<and> currentChallenge (gameState (app s)) \<noteq> None"
    and "\<forall>p\<in>set (pending s). \<forall>i sc j. screen s = Some (i, sc) \<longrightarrow> submitted_by p = Some j
            \<longrightarrow> j = i"
  shows "\<forall>p\<in>set (pending s'). \<forall>i sc j. screen s' = Some (i, sc) \<longrightarrow> submitted_by p = Some j
            \<longrightarrow> j = i"
proof (intro ballI allI impI)
  fix p i sc j
  assume m: "p \<in> set (pending s')" and scr: "screen s' = Some (i, sc)"
    and sb: "submitted_by p = Some j"
  note inst = step_instance [OF assms(1,4) scr]
  show "j = i"
  proof (cases "p \<in> set (pending s)")
    case True
    from True sb have "0 < submitting s"
      by (intro submitting_mem [of p]) simp_all
    with assms(2) have "isValidating (app s)"
      by (auto simp: serial_def split: if_splits)
    from validating_events [OF assms(1,2,3) this] inst
    obtain sc0 where "screen s = Some (i, sc0)"
      by auto
    with assms(5) True sb show ?thesis by blast
  next
    case False
    note new = step_pending [OF assms(1) m False]
    show ?thesis
    proof (cases e)
      case Submit
      with new sb obtain sc' where "screen s = Some (j, sc')" by auto
      moreover from inst Submit obtain sc0 where "screen s = Some (i, sc0)" by auto
      ultimately show ?thesis by simp
    next
      case (Validation_settles k ai)
      with new sb obtain challenge typed rendered
        where v: "Validate_await j challenge typed rendered \<in> set (pending s)"
        by auto
      from inst Validation_settles obtain sc0 where "screen s = Some (i, sc0)" by auto
      with assms(5) v show ?thesis by fastforce
    qed (use new sb in auto)
  qed
qed

lemma uncovered_invariants:
  "reachable_uncovered s \<Longrightarrow>
     (\<forall>d excluded. StartGame_await d excluded \<in> set (pending s)
          \<longrightarrow> score (gameState (app s)) = 0)
     \<and> (\<forall>p\<in>set (pending s). \<forall>g. captured p = Some g \<longrightarrow>
            seenEntities g = seenEntities (gameState (app s))
            \<and> difficulty g = difficulty (gameState (app s)))
     \<and> (\<forall>p\<in>set (pending s). \<forall>i sc j. screen s = Some (i, sc) \<longrightarrow> submitted_by p = Some j
            \<longrightarrow> j = i)"
proof (induction rule: reachable_uncovered.induct)
  case uncovered_initial
  show ?case by (simp add: initial_System_def)
next
  case (uncovered_step s e s')
  have serial: "serial s"
    using uncovered_serial_fresh [OF uncovered_step.hyps(1)] by simp
  have mounted: "screen s \<noteq> None \<longleftrightarrow>
      status (gameState (app s)) = PLAYING \<and> currentChallenge (gameState (app s)) \<noteq> None"
    using reachable_mounted [OF uncovered_reachable [OF uncovered_step.hyps(1)]] .
  from uncovered_step.IH have 1: "\<forall>d excluded. StartGame_await d excluded \<in> set (pending s)
          \<longrightarrow> score (gameState (app s)) = 0"
    and 2: "\<forall>p\<in>set (pending s). \<forall>g. captured p = Some g \<longrightarrow>
            seenEntities g = seenEntities (gameState (app s))
            \<and> difficulty g = difficulty (gameState (app s))"
    and 3: "\<forall>p\<in>set (pending s). \<forall>i sc j. screen s = Some (i, sc) \<longrightarrow> submitted_by p = Some j
            \<longrightarrow> j = i"
    by blast+
  note step_start_score [OF uncovered_step.hyps(2) serial uncovered_step.hyps(3) 1]
    step_captured [OF uncovered_step.hyps(2) serial uncovered_step.hyps(3) 2]
    step_own [OF uncovered_step.hyps(2) serial uncovered_step.hyps(3) mounted 3]
  then show ?case by (intro conjI)
qed

lemma uncovered_validating:
  assumes "reachable_uncovered s" and "screen s = Some (i, sc)"
    and "p \<in> set (pending s)" and "submitted_by p \<noteq> None"
  shows "validating sc"
proof -
  from assms(4) obtain j where j: "submitted_by p = Some j" by blast
  with uncovered_invariants [OF assms(1)] assms(2,3) have "j = i" by blast
  with j show ?thesis
    using in_flight_validating [OF uncovered_reachable [OF assms(1)] assms(2,3)] by simp
qed

subsection \<open>Concrete runs\<close>

lemma run_uncovered_reachable:
  "reachable_uncovered s \<Longrightarrow>
     (case run_uncovered es s of None \<Rightarrow> True | Some s' \<Rightarrow> reachable_uncovered s')"
proof (induction es arbitrary: s)
  case Nil
  then show ?case by simp
next
  case (Cons e es)
  show ?case
  proof (cases "user_event e \<and> showLoading (app s)")
    case True
    then show ?thesis by simp
  next
    case False
    show ?thesis
    proof (cases "step e s")
      case None
      with False show ?thesis by simp
    next
      case (Some s')
      with Cons.prems False have "reachable_uncovered s'"
        by (auto intro: uncovered_step)
      from Cons.IH [OF this] Some False show ?thesis by simp
    qed
  qed
qed

lemma loading_uncovered: "reachable_uncovered loading_System"
proof -
  have "run_uncovered [Click_start] initial_System = Some loading_System"
    by (simp add: system_eval showLoading_def loading_System_def)
  with run_uncovered_reachable [OF uncovered_initial, of "[Click_start]"] show ?thesis
    by simp
qed

lemma skipped_uncovered: "reachable_uncovered skipped_System"
proof -
  have "run_uncovered skip_trace initial_System = Some skipped_System"
    by (simp add: skip_trace_def system_eval showLoading_def skipped_System_def
        sample_app_def sample_challenge_def)
  with run_uncovered_reachable [OF uncovered_initial, of skip_trace] show ?thesis
    by simp
qed

lemma submitted_uncovered: "reachable_uncovered submitted_System"
proof -
  have "run_uncovered submit_trace initial_System = Some submitted_System"
    by (simp add: submit_trace_def system_eval showLoading_def submitted_System_def
        sample_app_def sample_challenge_def trim_Kaka)
  with run_uncovered_reachable [OF uncovered_initial, of submit_trace] show ?thesis
    by simp
qed

lemma accepted_uncovered: "reachable_uncovered accepted_System"
proof -
  have "run_uncovered accept_trace initial_System = Some accepted_System"
    by (simp add: accept_trace_def submit_trace_def system_eval showLoading_def
        accepted_System_def sample_app_def sample_challenge_def trim_Kaka)
  with run_uncovered_reachable [OF uncovered_initial, of accept_trace] show ?thesis
    by simp
qed

lemma late_failure_eval:
  "(case run late_failure_trace initial_System of
      None \<Rightarrow> False
    | Some s \<Rightarrow> status (gameState (app s)) = IDLE \<and> error (app s) = Some start_error
               \<and> score (gameState (app s)) = 1)"
  by (simp add: late_failure_trace_def submit_trace_def run_append run_ticks system_eval
      trim_Kaka generateChallenge_unreachable)

lemma trim_Pele: "trim (js ''Pele'') \<noteq> []"
  by (simp add: js_def trim_def isWhiteSpace_def)

lemma stale_exclusion_eval:
  "(case run stale_exclusion_trace initial_System of
      None \<Rightarrow> False
    | Some s \<Rightarrow> status (gameState (app s)) = PLAYING
               \<and> seenEntities (gameState (app s)) = [js ''Real'', js ''Inter'']
               \<and> map_option pending (step (Timeout_fires 0) s)
                   = Some [NextRound_await MEDIUM [js ''Barcelona'', js ''Milan'']])"
  by (simp add: stale_exclusion_trace_def second_game_trace_def submit_trace_def run_append
      run_ticks system_eval trim_Kaka second_data_def)

lemma second_submission_eval:
  "(case run second_submission_trace initial_System of
      None \<Rightarrow> False
    | Some s \<Rightarrow> map submitted_by (pending s) = [Some 0]
               \<and> map_option (map submitted_by \<circ> pending) (step Submit s) = Some [Some 0, Some 1]
               \<and> step Submit s \<noteq> Some s)"
  by (simp add: second_submission_trace_def second_game_trace_def submit_trace_def run_append
      run_ticks system_eval trim_Kaka trim_Pele second_data_def)

section \<open>Session transitions\<close>

text \<open>
  C7, as stated, fails for the initial start: the catch block of \<open>startGame\<close> sets
  the status and the error message and leaves the score as it is at that moment, which
  need not be 0. The player submits \<open>Kaka\<close>, the clock runs out while the backend is
  asked, and the player starts again from the game-over screen. The answer of the first
  game is then accepted and its timeout calls \<open>onNextRound(10)\<close>, which adds 1 to the
  score of the game being started; then the start request fails. The session is IDLE
  with the start error shown and score 1.
\<close>

theorem start_failure_with_score:
  "(case run late_failure_trace initial_System of
      None \<Rightarrow> False
    | Some s \<Rightarrow> reachable s \<and> status (gameState (app s)) = IDLE
               \<and> error (app s) = Some start_error \<and> score (gameState (app s)) = 1)"
  using run_reachable [OF reachable_initial, of late_failure_trace] late_failure_eval
  by (auto split: option.splits)

text \<open>
  C7, amended: when a generation request settles with a failure, the continuation of
  \<open>startGame\<close> sets the status to IDLE and the start error, and the continuation of
  \<open>handleNextRound\<close> sets the status to GAME_OVER and its error; both leave the score
  as it is at that moment. In a run in which the player acts only while the loading
  overlay is not shown, the status at that moment is LOADING_CHALLENGE, and the score is
  0 when the request is a start request.
\<close>

theorem generation_failure_settles:
  assumes "step (Generation_settles k ai rnd1 rnd2 uuid) s = Some s'"
    and "fst (generateChallenge ai rnd1 rnd2 uuid d excluded) = Inl thrown"
  shows "(pending s ! k = StartGame_await d excluded \<longrightarrow>
            status (gameState (app s')) = IDLE
            \<and> error (app s') = Some start_error
            \<and> score (gameState (app s')) = score (gameState (app s))
            \<and> (reachable_uncovered s \<longrightarrow>
                 status (gameState (app s)) = LOADING_CHALLENGE
                 \<and> score (gameState (app s)) = 0))
       \<and> (pending s ! k = NextRound_await d excluded \<longrightarrow>
            status (gameState (app s')) = GAME_OVER
            \<and> error (app s') = Some next_round_error
            \<and> score (gameState (app s')) = score (gameState (app s))
            \<and> (reachable_uncovered s \<longrightarrow> status (gameState (app s)) = LOADING_CHALLENGE))"
proof -
  from step_Generation_settles [OF assms(1)] have k: "k < length (pending s)"
    and a: "case pending s ! k of
         StartGame_await d excluded \<Rightarrow>
           app s' = (case fst (generateChallenge ai rnd1 rnd2 uuid d excluded) of
                       Inr challenge \<Rightarrow> startGame_resolved challenge (app s)
                     | Inl e \<Rightarrow> startGame_rejected (app s))
       | NextRound_await d excluded \<Rightarrow>
           app s' = (case fst (generateChallenge ai rnd1 rnd2 uuid d excluded) of
                       Inr challenge \<Rightarrow> handleNextRound_resolved challenge (app s)
                     | Inl e \<Rightarrow> handleNextRound_rejected (app s))
       | _ \<Rightarrow> False"
    by blast+
  have loading: "status (gameState (app s)) = LOADING_CHALLENGE"
    if "reachable_uncovered s" and "submitted_by (pending s ! k) = None"
  proof -
    from k that(2) have "0 < generating s" by (rule generating_pos)
    with uncovered_serial_fresh [OF that(1)] show ?thesis
      by (auto simp: serial_def split: if_splits)
  qed
  have start: "status (gameState (app s')) = IDLE
            \<and> error (app s') = Some start_error
            \<and> score (gameState (app s')) = score (gameState (app s))
            \<and> (reachable_uncovered s \<longrightarrow>
                 status (gameState (app s)) = LOADING_CHALLENGE
                 \<and> score (gameState (app s)) = 0)"
    if p: "pending s ! k = StartGame_await d excluded"
  proof -
    from a p assms(2) have "app s' = startGame_rejected (app s)" by simp
    then have 1: "status (gameState (app s')) = IDLE \<and> error (app s') = Some start_error
        \<and> score (gameState (app s')) = score (gameState (app s))"
      by (simp add: startGame_rejected_def)
    have 2: "status (gameState (app s)) = LOADING_CHALLENGE \<and> score (gameState (app s)) = 0"
      if u: "reachable_uncovered s"
    proof -
      from k p have "StartGame_await d excluded \<in> set (pending s)"
        by (metis nth_mem)
      with uncovered_invariants [OF u] have "score (gameState (app s)) = 0" by blast
      with loading [OF u] p show ?thesis by simp
    qed
    from 1 2 show ?thesis by blast
  qed
  have advance: "status (gameState (app s')) = GAME_OVER
            \<and> error (app s') = Some next_round_error
            \<and> score (gameState (app s')) = score (gameState (app s))
            \<and> (reachable_uncovered s \<longrightarrow> status (gameState (app s)) = LOADING_CHALLENGE)"
    if p: "pending s ! k = NextRound_await d excluded"
  proof -
    from a p assms(2) have "app s' = handleNextRound_rejected (app s)" by simp
    then have "status (gameState (app s')) = GAME_OVER \<and> error (app s') = Some next_round_error
        \<and> score (gameState (app s')) = score (gameState (app s))"
      by (simp add: handleNextRound_rejected_def)
    with loading p show ?thesis by simp
  qed
  from start advance show ?thesis by blast
qed

text \<open>
  The amended C7 at a backend that cannot be reached: the start request of the first
  game, and the request for the next round after the first challenge has been skipped.
\<close>

theorem generation_failure_settles_witness:
  "reachable_uncovered loading_System
   \<and> map_option (\<lambda>s. (status (gameState (app s)), error (app s), score (gameState (app s))))
       (step (Generation_settles 0 unreachable_backend 0 0 (js ''u'')) loading_System)
     = Some (IDLE, Some start_error, 0)
   \<and> reachable_uncovered skipped_System
   \<and> map_option (\<lambda>s. (status (gameState (app s)), error (app s), score (gameState (app s))))
       (step (Generation_settles 0 unreachable_backend 0 0 (js ''u'')) skipped_System)
     = Some (GAME_OVER, Some next_round_error, 0)"
proof -
  let ?e = "Generation_settles 0 unreachable_backend 0 0 (js ''u'')"
  let ?thrown = "Some \<lparr>err_text = js ''TypeError: fetch failed'', err_status = None\<rparr>"
  obtain s1 where s1: "step ?e loading_System = Some s1"
    by (simp add: loading_System_def system_eval generateChallenge_unreachable)
  obtain s2 where s2: "step ?e skipped_System = Some s2"
    by (simp add: skipped_System_def system_eval generateChallenge_unreachable)
  have p1: "pending loading_System ! 0 = StartGame_await MEDIUM []"
    by (simp add: loading_System_def)
  have p2: "pending skipped_System ! 0
              = NextRound_await MEDIUM [js ''Barcelona'', js ''Milan'']"
    by (simp add: skipped_System_def)
  have z: "score (gameState (app skipped_System)) = 0"
    by (simp add: skipped_System_def handleNextRound_begin_def sample_app_fields)
  from generation_failure_settles [OF s1 generateChallenge_unreachable] p1 loading_uncovered
  have 1: "status (gameState (app s1)) = IDLE \<and> error (app s1) = Some start_error
      \<and> score (gameState (app s1)) = 0"
    by simp
  from generation_failure_settles [OF s2 generateChallenge_unreachable] p2 z
  have 2: "status (gameState (app s2)) = GAME_OVER \<and> error (app s2) = Some next_round_error
      \<and> score (gameState (app s2)) = 0"
    by simp
  from 1 2 loading_uncovered skipped_uncovered show ?thesis
    unfolding s1 s2 by simp
qed

text \<open>
  C8, as stated, fails for the exclusions: \<open>onNextRound(10)\<close> is the handler of the
  render in which the answer was submitted, and it passes the seen names of that render.
  The player submits \<open>Kaka\<close>, the clock runs out while the backend is asked, the
  player starts again and a second game with the cards Real and Inter is being played
  when the answer of the first game is accepted. The round advance of its timeout, taken
  from PLAYING, issues a request that excludes Barcelona and Milan, the seen names of
  the first game, while the seen names accumulated so far are Real and Inter.
\<close>

theorem stale_exclusions:
  "(case run stale_exclusion_trace initial_System of
      None \<Rightarrow> False
    | Some s \<Rightarrow> reachable s \<and> status (gameState (app s)) = PLAYING
               \<and> seenEntities (gameState (app s)) = [js ''Real'', js ''Inter'']
               \<and> map_option pending (step (Timeout_fires 0) s)
                   = Some [NextRound_await MEDIUM [js ''Barcelona'', js ''Milan'']])"
  using run_reachable [OF reachable_initial, of stale_exclusion_trace] stale_exclusion_eval
  by (auto split: option.splits)

text \<open>
  C8, amended. The updater of \<open>handleNextRound(bonusTime)\<close> sets LOADING_CHALLENGE;
  with a positive bonus the score grows by 1 and the time left by the bonus, with bonus
  0 both stay. A skip, possible only while PLAYING, calls it with bonus 0 and issues a
  request with the difficulty and the seen names of the current state. The timeout of an
  accepted answer calls it with bonus 10 and issues a request with the difficulty and
  the seen names of the render the answer was submitted in; in a run in which the player
  acts only while the loading overlay is not shown these are the ones of the current
  state. When the request settles, the outcome is that of \<open>generateChallenge\<close> at the
  difficulty and the names of the request, and score and time left stay as they are; at
  least one request is sent to the backend, and every request sent carries the prompt
  whose third constraint lists, between square brackets and joined by commas, the last
  20 of these names (all of them when there are fewer).
\<close>

theorem advance_round:
  "status (gameState (handleNextRound_begin bonusTime a)) = LOADING_CHALLENGE
   \<and> (bonusTime > 0 \<longrightarrow>
        score (gameState (handleNextRound_begin bonusTime a)) = score (gameState a) + 1
        \<and> timeLeft (gameState (handleNextRound_begin bonusTime a))
            = timeLeft (gameState a) + bonusTime)
   \<and> (bonusTime = 0 \<longrightarrow>
        score (gameState (handleNextRound_begin bonusTime a)) = score (gameState a)
        \<and> timeLeft (gameState (handleNextRound_begin bonusTime a)) = timeLeft (gameState a))
   \<and> (step Click_skip s = Some s' \<longrightarrow>
        app s' = handleNextRound_begin 0 (app s)
        \<and> pending s' = pending s @ [NextRound_await (difficulty (gameState (app s)))
                                        (seenEntities (gameState (app s)))]
        \<and> (reachable s \<longrightarrow> status (gameState (app s)) = PLAYING))
   \<and> (step (Timeout_fires k) t = Some t' \<longrightarrow>
        (\<exists>j rendered.
            pending t ! k = NextRound_timeout j rendered
            \<and> app t' = handleNextRound_begin 10 ((app t)\<lparr>isValidating := False\<rparr>)
            \<and> pending t' = take k (pending t) @ drop (Suc k) (pending t)
                            @ [NextRound_await (difficulty rendered) (seenEntities rendered)]
            \<and> (reachable_uncovered t \<longrightarrow>
                 seenEntities rendered = seenEntities (gameState (app t))
                 \<and> difficulty rendered = difficulty (gameState (app t)))))
   \<and> (step (Generation_settles n ai rnd1 rnd2 uuid) u = Some u' \<longrightarrow>
      pending u ! n = NextRound_await d excluded \<longrightarrow>
        app u' = (case fst (generateChallenge ai rnd1 rnd2 uuid d excluded) of
                    Inr challenge \<Rightarrow> handleNextRound_resolved challenge (app u)
                  | Inl e \<Rightarrow> handleNextRound_rejected (app u))
        \<and> score (gameState (app u')) = score (gameState (app u))
        \<and> timeLeft (gameState (app u')) = timeLeft (gameState (app u)))
   \<and> requests (snd (generateChallenge ai rnd1 rnd2 uuid d excluded)) \<noteq> []
   \<and> (\<forall>r\<in>set (requests (snd (generateChallenge ai rnd1 rnd2 uuid d excluded))).
        contents r
          = challengePrompt (pick rnd1 THEMES) (pick rnd2 STRUCTURES) (difficultyContext d)
              (join (js '', '') (slice_last 20 excluded))
        \<and> (\<exists>pre post. contents r
              = pre @ js ''3. Exclude: ['' @ join (js '', '') (slice_last 20 excluded)
                    @ js ''].'' @ post))
   \<and> take (length excluded - 20) excluded @ slice_last 20 excluded = excluded
   \<and> length (slice_last 20 excluded) = min 20 (length excluded)"
proof -
  have 1: "status (gameState (handleNextRound_begin bonusTime a)) = LOADING_CHALLENGE
     \<and> (bonusTime > 0 \<longrightarrow>
        score (gameState (handleNextRound_begin bonusTime a)) = score (gameState a) + 1
        \<and> timeLeft (gameState (handleNextRound_begin bonusTime a))
            = timeLeft (gameState a) + bonusTime)
     \<and> (bonusTime = 0 \<longrightarrow>
        score (gameState (handleNextRound_begin bonusTime a)) = score (gameState a)
        \<and> timeLeft (gameState (handleNextRound_begin bonusTime a)) = timeLeft (gameState a))"
    by (simp add: handleNextRound_begin_def)
  have 2: "app s' = handleNextRound_begin 0 (app s)
        \<and> pending s' = pending s @ [NextRound_await (difficulty (gameState (app s)))
                                        (seenEntities (gameState (app s)))]
        \<and> (reachable s \<longrightarrow> status (gameState (app s)) = PLAYING)"
    if st: "step Click_skip s = Some s'"
    using step_Click_skip [OF st] reachable_mounted [of s] by blast
  have 3: "\<exists>j rendered.
            pending t ! k = NextRound_timeout j rendered
            \<and> app t' = handleNextRound_begin 10 ((app t)\<lparr>isValidating := False\<rparr>)
            \<and> pending t' = take k (pending t) @ drop (Suc k) (pending t)
                            @ [NextRound_await (difficulty rendered) (seenEntities rendered)]
            \<and> (reachable_uncovered t \<longrightarrow>
                 seenEntities rendered = seenEntities (gameState (app t))
                 \<and> difficulty rendered = difficulty (gameState (app t)))"
    if st: "step (Timeout_fires k) t = Some t'"
  proof -
    from step_Timeout_fires [OF st] obtain j rendered where k: "k < length (pending t)"
      and p: "pending t ! k = NextRound_timeout j rendered"
      and a: "app t' = handleNextRound_begin 10 ((app t)\<lparr>isValidating := False\<rparr>)"
      and n: "pending t' = take k (pending t) @ drop (Suc k) (pending t)
                            @ [NextRound_await (difficulty rendered) (seenEntities rendered)]"
      by blast
    have "seenEntities rendered = seenEntities (gameState (app t))
          \<and> difficulty rendered = difficulty (gameState (app t))"
      if u: "reachable_uncovered t"
    proof -
      from k p have "NextRound_timeout j rendered \<in> set (pending t)"
        by (metis nth_mem)
      moreover have "captured (NextRound_timeout j rendered) = Some rendered" by simp
      ultimately show ?thesis
        using uncovered_invariants [OF u] by blast
    qed
    with p a n show ?thesis by blast
  qed
  have 4: "app u' = (case fst (generateChallenge ai rnd1 rnd2 uuid d excluded) of
                    Inr challenge \<Rightarrow> handleNextRound_resolved challenge (app u)
                  | Inl e \<Rightarrow> handleNextRound_rejected (app u))
        \<and> score (gameState (app u')) = score (gameState (app u))
        \<and> timeLeft (gameState (app u')) = timeLeft (gameState (app u))"
    if st: "step (Generation_settles n ai rnd1 rnd2 uuid) u = Some u'"
      and p: "pending u ! n = NextRound_await d excluded"
  proof -
    from step_Generation_settles [OF st] p
    have a: "app u' = (case fst (generateChallenge ai rnd1 rnd2 uuid d excluded) of
                    Inr challenge \<Rightarrow> handleNextRound_resolved challenge (app u)
                  | Inl e \<Rightarrow> handleNextRound_rejected (app u))"
      by simp
    then have "score (gameState (app u')) = score (gameState (app u))
        \<and> timeLeft (gameState (app u')) = timeLeft (gameState (app u))"
      by (simp add: handleNextRound_resolved_def handleNextRound_rejected_def split: sum.splits)
    with a show ?thesis by simp
  qed
  have 5: "requests (snd (generateChallenge ai rnd1 rnd2 uuid d excluded)) \<noteq> []"
    using generateChallenge_requests by blast
  have 6: "\<forall>r\<in>set (requests (snd (generateChallenge ai rnd1 rnd2 uuid d excluded))).
        contents r
          = challengePrompt (pick rnd1 THEMES) (pick rnd2 STRUCTURES) (difficultyContext d)
              (join (js '', '') (slice_last 20 excluded))
        \<and> (\<exists>pre post. contents r
              = pre @ js ''3. Exclude: ['' @ join (js '', '') (slice_last 20 excluded)
                    @ js ''].'' @ post)"
  proof
    fix r
    assume "r \<in> set (requests (snd (generateChallenge ai rnd1 rnd2 uuid d excluded)))"
    with generateChallenge_requests
    have c: "contents r
          = challengePrompt (pick rnd1 THEMES) (pick rnd2 STRUCTURES) (difficultyContext d)
              (join (js '', '') (slice_last 20 excluded))"
      by blast
    with challengePrompt_exclusions [of "pick rnd1 THEMES" "pick rnd2 STRUCTURES"
        "difficultyContext d" "join (js '', '') (slice_last 20 excluded)"]
    show "contents r
          = challengePrompt (pick rnd1 THEMES) (pick rnd2 STRUCTURES) (difficultyContext d)
              (join (js '', '') (slice_last 20 excluded))
        \<and> (\<exists>pre post. contents r
              = pre @ js ''3. Exclude: ['' @ join (js '', '') (slice_last 20 excluded)
                    @ js ''].'' @ post)"
      by simp
  qed
  from 1 2 3 4 5 6 slice_last_recent [of excluded 20] show ?thesis
    by (intro conjI impI) blast+
qed

lemma join_Barcelona_Milan:
  "js ''3. Exclude: ['' @ join (js '', '') (slice_last 20 [js ''Barcelona'', js ''Milan''])
     @ js ''].'' @ post
   = js ''3. Exclude: [Barcelona, Milan].'' @ post"
  by (simp add: slice_last_def js_def)

text \<open>
  The amended C8 at the session after the first challenge (PLAYING, score 0, 60 s left,
  Barcelona and Milan seen): the updater with bonus 10 and with bonus 0, a skip, the
  timeout of the accepted answer \<open>Kaka\<close>, and the prompt of the request.
\<close>

theorem advance_round_witness:
  "score (gameState (handleNextRound_begin 10 sample_app)) = 1
   \<and> timeLeft (gameState (handleNextRound_begin 10 sample_app)) = 70
   \<and> score (gameState (handleNextRound_begin 0 sample_app)) = 0
   \<and> timeLeft (gameState (handleNextRound_begin 0 sample_app)) = 60
   \<and> reachable first_round_System
   \<and> status (gameState (app first_round_System)) = PLAYING
   \<and> map_option pending (step Click_skip first_round_System)
       = Some [NextRound_await MEDIUM [js ''Barcelona'', js ''Milan'']]
   \<and> reachable_uncovered accepted_System
   \<and> seenEntities (gameState (app accepted_System)) = [js ''Barcelona'', js ''Milan'']
   \<and> map_option pending (step (Timeout_fires 0) accepted_System)
       = Some [NextRound_await MEDIUM [js ''Barcelona'', js ''Milan'']]
   \<and> map_option (\<lambda>s. (score (gameState (app s)), timeLeft (gameState (app s))))
        (step (Timeout_fires 0) accepted_System) = Some (1, 70)
   \<and> includes_js
        (contents (hd (requests (snd (generateChallenge (answering_backend second_data) 0 0
                                        (js ''c2'') MEDIUM [js ''Barcelona'', js ''Milan''])))))
        (js ''3. Exclude: [Barcelona, Milan].'')"
proof -
  let ?ex = "[js ''Barcelona'', js ''Milan'']"
  obtain s1 where s1: "step Click_skip first_round_System = Some s1"
    by (simp add: first_round_System_def system_eval)
  obtain t1 where t1: "step (Timeout_fires 0) accepted_System = Some t1"
    by (simp add: accepted_System_def system_eval)
  note ten = advance_round [where bonusTime = 10 and a = sample_app
      and s = first_round_System and s' = s1 and k = 0 and t = accepted_System and t' = t1
      and ai = "answering_backend second_data" and ?rnd1.0 = 0 and ?rnd2.0 = 0
      and uuid = "js ''c2''" and d = MEDIUM and excluded = ?ex]
  note zero = advance_round [where bonusTime = 0 and a = sample_app]
  note ten_bonus = ten [THEN conjunct2, THEN conjunct1]
  note zero_bonus = zero [THEN conjunct2, THEN conjunct2, THEN conjunct1]
  note skip = ten [THEN conjunct2, THEN conjunct2, THEN conjunct2, THEN conjunct1]
  note timeout = ten [THEN conjunct2, THEN conjunct2, THEN conjunct2, THEN conjunct2,
      THEN conjunct1]
  note sent = ten [THEN conjunct2, THEN conjunct2, THEN conjunct2, THEN conjunct2,
      THEN conjunct2, THEN conjunct2, THEN conjunct1]
  note prompt = ten [THEN conjunct2, THEN conjunct2, THEN conjunct2, THEN conjunct2,
      THEN conjunct2, THEN conjunct2, THEN conjunct2, THEN conjunct1]
  have f: "gameState (app first_round_System) = gameState sample_app"
    "gameState (app accepted_System) = gameState sample_app"
    "pending first_round_System = []"
    "pending accepted_System = [NextRound_timeout 0 (gameState sample_app)]"
    by (simp_all add: first_round_System_def accepted_System_def)
  from ten_bonus zero_bonus
  have 1: "score (gameState (handleNextRound_begin 10 sample_app)) = 1
      \<and> timeLeft (gameState (handleNextRound_begin 10 sample_app)) = 70
      \<and> score (gameState (handleNextRound_begin 0 sample_app)) = 0
      \<and> timeLeft (gameState (handleNextRound_begin 0 sample_app)) = 60"
    by (simp add: sample_app_fields)
  from skip [rule_format, OF s1] first_round_reachable
  have 2: "status (gameState (app first_round_System)) = PLAYING
      \<and> pending s1 = [NextRound_await MEDIUM ?ex]"
    by (simp add: f sample_app_fields)
  from timeout [rule_format, OF t1] obtain j rendered where
    p: "pending accepted_System ! 0 = NextRound_timeout j rendered"
    and a: "app t1 = handleNextRound_begin 10 ((app accepted_System)\<lparr>isValidating := False\<rparr>)"
    and n: "pending t1 = take 0 (pending accepted_System) @ drop (Suc 0) (pending accepted_System)
           @ [NextRound_await (difficulty rendered) (seenEntities rendered)]"
    by blast
  from p have r: "rendered = gameState sample_app"
    by (simp add: f)
  from a n have 3: "pending t1 = [NextRound_await MEDIUM ?ex]
      \<and> score (gameState (app t1)) = 1 \<and> timeLeft (gameState (app t1)) = 70"
    unfolding r by (simp add: sample_app_fields handleNextRound_begin_def f)
  let ?rs = "requests (snd (generateChallenge (answering_backend second_data) 0 0 (js ''c2'')
                              MEDIUM ?ex))"
  from sent have "hd ?rs \<in> set ?rs"
    by (rule hd_in_set)
  with prompt obtain pre post where
    "contents (hd ?rs)
       = pre @ js ''3. Exclude: ['' @ join (js '', '') (slice_last 20 ?ex) @ js ''].'' @ post"
    by blast
  then have 4: "includes_js (contents (hd ?rs)) (js ''3. Exclude: [Barcelona, Milan].'')"
    unfolding includes_js_iff join_Barcelona_Milan by blast
  have 5: "seenEntities (gameState (app accepted_System)) = ?ex"
    by (simp add: f sample_app_fields)
  from 1 2 3 4 5 first_round_reachable accepted_uncovered show ?thesis
    unfolding s1 t1 by simp
qed

text \<open>
  C9: a difficulty is selected with one of the three buttons of the IDLE screen, the
  only callers of \<open>setDifficulty\<close>. In every other status the buttons do not exist,
  no event selects a difficulty and no event changes it; in IDLE the selection sets the
  difficulty and nothing else of the session. The next start sets the time left to the
  limit of the difficulty selected: 90 for EASY, 60 for MEDIUM, 45 for HARD.
\<close>

theorem difficulty_selection:
  "(status (gameState (app s)) \<noteq> IDLE \<longrightarrow> step (Click_difficulty level) s = None)
   \<and> (status (gameState (app s)) = IDLE \<longrightarrow>
        map_option (gameState \<circ> app) (step (Click_difficulty level) s)
          = Some ((gameState (app s))\<lparr>difficulty := level\<rparr>))
   \<and> (step e t = Some t' \<longrightarrow>
      difficulty (gameState (app t')) \<noteq> difficulty (gameState (app t)) \<longrightarrow>
        status (gameState (app t)) = IDLE
        \<and> e = Click_difficulty (difficulty (gameState (app t'))))
   \<and> (step Click_start u = Some u' \<longrightarrow>
        difficulty (gameState (app u')) = difficulty (gameState (app u))
        \<and> timeLeft (gameState (app u')) = TIME_LIMITS (difficulty (gameState (app u))))
   \<and> TIME_LIMITS EASY = 90 \<and> TIME_LIMITS MEDIUM = 60 \<and> TIME_LIMITS HARD = 45"
proof -
  have 1: "status (gameState (app s)) \<noteq> IDLE \<longrightarrow> step (Click_difficulty level) s = None"
    by simp
  have 2: "status (gameState (app s)) = IDLE \<longrightarrow>
        map_option (gameState \<circ> app) (step (Click_difficulty level) s)
          = Some ((gameState (app s))\<lparr>difficulty := level\<rparr>)"
    by (simp add: setDifficulty_def)
  have 3: "status (gameState (app t)) = IDLE
        \<and> e = Click_difficulty (difficulty (gameState (app t')))"
    if st: "step e t = Some t'"
      and ne: "difficulty (gameState (app t')) \<noteq> difficulty (gameState (app t))"
  proof (cases e)
    case (Click_difficulty l)
    with st show ?thesis
      by (auto simp: setDifficulty_def split: if_splits)
  qed (use step_gameState [OF st] ne in
      \<open>auto simp: tick_def startGame_begin_def resetGame_def handleNextRound_begin_def
         startGame_resolved_def startGame_rejected_def handleNextRound_resolved_def
         handleNextRound_rejected_def split: if_splits\<close>)
  have 4: "difficulty (gameState (app u')) = difficulty (gameState (app u))
        \<and> timeLeft (gameState (app u')) = TIME_LIMITS (difficulty (gameState (app u)))"
    if st: "step Click_start u = Some u'"
    using step_Click_start [OF st] by (simp add: startGame_begin_def)
  have 5: "TIME_LIMITS EASY = 90 \<and> TIME_LIMITS MEDIUM = 60 \<and> TIME_LIMITS HARD = 45"
    by (simp add: TIME_LIMITS_def)
  from 1 2 3 4 5 show ?thesis by blast
qed

text \<open>
  C9 while a challenge is being played and while one is loading, where no difficulty can
  be selected, and in the initial state: HARD is selected, and a start with the initial
  difficulty, MEDIUM, sets the time left to 60 (Scenario A of the specification).
\<close>

theorem difficulty_selection_witness:
  "step (Click_difficulty HARD) first_round_System = None
   \<and> step (Click_difficulty HARD) loading_System = None
   \<and> map_option (difficulty \<circ> gameState \<circ> app) (step (Click_difficulty HARD) initial_System)
       = Some HARD
   \<and> difficulty (gameState (app initial_System)) = MEDIUM
   \<and> map_option (timeLeft \<circ> gameState \<circ> app) (step Click_start initial_System) = Some 60"
proof -
  obtain h where h: "step (Click_difficulty HARD) initial_System = Some h"
    by (simp add: initial_System_def initial_App_def)
  obtain u where u: "step Click_start initial_System = Some u"
    by (simp add: initial_System_def initial_App_def)
  have i: "status (gameState (app initial_System)) = IDLE"
    "difficulty (gameState (app initial_System)) = MEDIUM"
    by (simp_all add: initial_System_def initial_App_def)
  have p: "status (gameState (app first_round_System)) = PLAYING"
    by (simp add: first_round_System_def sample_app_fields)
  have l: "status (gameState (app loading_System)) = LOADING_CHALLENGE"
    by (simp add: loading_System_def startGame_begin_def)
  note a = difficulty_selection [where s = first_round_System and level = HARD]
  note b = difficulty_selection [where s = loading_System and level = HARD]
  note c = difficulty_selection [where s = initial_System and level = HARD
      and e = "Click_difficulty HARD" and t = initial_System and t' = h
      and u = initial_System and u' = u]
  from a p have 1: "step (Click_difficulty HARD) first_round_System = None" by simp
  from b l have 2: "step (Click_difficulty HARD) loading_System = None" by simp
  from c i have "map_option (gameState \<circ> app) (step (Click_difficulty HARD) initial_System)
          = Some ((gameState (app initial_System))\<lparr>difficulty := HARD\<rparr>)"
    by blast
  then have 3: "difficulty (gameState (app h)) = HARD"
    unfolding h by simp
  from c u have "timeLeft (gameState (app u))
      = TIME_LIMITS (difficulty (gameState (app initial_System)))"
    by blast
  with c i have 4: "timeLeft (gameState (app u)) = 60"
    by simp
  from 1 2 3 4 i show ?thesis
    unfolding h u by simp
qed

section \<open>Submissions that do nothing\<close>

text \<open>
  C10, as stated, fails for a validation in flight: what \<open>handleSubmit\<close> tests is the
  \<open>validating\<close> flag of the mounted game screen, and a game screen mounted after a
  restart starts with the flag cleared. The player submits \<open>Kaka\<close>, the clock runs out
  while the backend is asked, the player starts again, the first challenge of the second
  game arrives and the player types \<open>Pele\<close>. The validation of \<open>Kaka\<close> is still in
  flight, and a submission now issues a second validation.
\<close>

theorem second_submission_accepted:
  "(case run second_submission_trace initial_System of
      None \<Rightarrow> False
    | Some s \<Rightarrow> reachable s \<and> map submitted_by (pending s) = [Some 0]
               \<and> map_option (map submitted_by \<circ> pending) (step Submit s)
                   = Some [Some 0, Some 1]
               \<and> step Submit s \<noteq> Some s)"
  using run_reachable [OF reachable_initial, of second_submission_trace] second_submission_eval
  by (auto split: option.splits)

text \<open>
  C10, amended: with the game screen mounted, a submission whose input consists of white
  space only (the empty input included), or that arrives while the \<open>validating\<close> flag
  of the mounted screen is set, leaves the running application exactly as it was: no
  validation is added to the outstanding operations, and score, time left, status and
  challenge are unchanged. The flag is set in every reachable state in which a
  submission of the mounted screen is still outstanding (its validation awaited, or the
  timeout of its accepted answer not yet fired), and, in a run in which the player acts
  only while the loading overlay is not shown, in every state in which any submission is
  outstanding.
\<close>

theorem handleSubmit_blocked:
  assumes "screen s = Some (i, sc)"
    and "(\<forall>c\<in>set (input sc). isWhiteSpace c) \<or> validating sc
         \<or> (reachable s \<and> (\<exists>p\<in>set (pending s). submitted_by p = Some i))
         \<or> (reachable_uncovered s \<and> (\<exists>p\<in>set (pending s). submitted_by p \<noteq> None))"
  shows "step Submit s = Some s"
proof -
  from assms have "(\<forall>c\<in>set (input sc). isWhiteSpace c) \<or> validating sc"
    using in_flight_validating uncovered_validating by blast
  with assms(1) show ?thesis
    by (auto simp: handleSubmit_def trim_empty_iff split: option.splits)
qed

text \<open>
  The amended C10 at a game screen whose input field holds two spaces, and at the
  running application right after the answer \<open>Kaka\<close> has been submitted.
\<close>

theorem handleSubmit_blocked_witness:
  "step Submit whitespace_System = Some whitespace_System
   \<and> reachable submitted_System \<and> reachable_uncovered submitted_System
   \<and> map submitted_by (pending submitted_System) = [Some 0]
   \<and> step Submit submitted_System = Some submitted_System"
proof -
  have w: "screen whitespace_System = Some (0, initial_Screen\<lparr>input := js ''  ''\<rparr>)"
    by (simp add: whitespace_System_def)
  have ws: "\<forall>c\<in>set (input (initial_Screen\<lparr>input := js ''  ''\<rparr>)). isWhiteSpace c"
    by (simp add: js_def isWhiteSpace_def)
  have 1: "step Submit whitespace_System = Some whitespace_System"
    using w ws by (intro handleSubmit_blocked) blast+
  have s: "screen submitted_System
             = Some (0, \<lparr>input = js ''Kaka'', validating = True, feedback = no_feedback\<rparr>)"
    by (simp add: submitted_System_def)
  have p: "\<exists>p\<in>set (pending submitted_System). submitted_by p = Some 0"
    by (simp add: submitted_System_def)
  have q: "\<exists>p\<in>set (pending submitted_System). submitted_by p \<noteq> None"
    by (simp add: submitted_System_def)
  have 2: "step Submit submitted_System = Some submitted_System"
    using s submitted_reachable p by (intro handleSubmit_blocked) blast+
  have 3: "step Submit submitted_System = Some submitted_System"
    using s submitted_uncovered q by (intro handleSubmit_blocked) blast+
  have 4: "map submitted_by (pending submitted_System) = [Some 0]"
    by (simp add: submitted_System_def)
  from 1 2 3 4 submitted_reachable submitted_uncovered show ?thesis by blast
qed

end
